theory Spec2Isabelle
  imports Main
begin

section \<open>Data model used by transaction.ts\<close>

text \<open>
  transaction.ts imports its types from \<^verbatim>\<open>./types\<close>. The shapes below are the ones it
  reads and writes (every field it copies), together with the \<^verbatim>\<open>TimelineData\<close>
  interface quoted in STOCKFISH_PLAN.md; pieces carry the \<^verbatim>\<open>type\<close> and \<^verbatim>\<open>color\<close> of
  chess.js. JavaScript numbers that serve as ids are integers here. Console output is not
  modelled.
\<close>

datatype pieceType = Pawn | Knight | Bishop | Rook | Queen | King

datatype pieceColor = White | Black

record piece =
  pc_type :: pieceType
  pc_color :: pieceColor

text \<open>\<^verbatim>\<open>Board\<close>: an array of rows, each an array of \<^verbatim>\<open>Piece | null\<close>.\<close>

type_synonym board = "piece option list list"

text \<open>
  \<^verbatim>\<open>AnySnapshot\<close>: the old format is the bare board array (\<^verbatim>\<open>Array.isArray\<close> holds),
  the new format is the object \<^verbatim>\<open>{ fen, board }\<close>.
\<close>

datatype anySnapshot = BareBoard board | FenBoard string board

record move =
  mv_from :: string
  mv_to :: string
  mv_piece :: piece
  mv_captured :: "piece option"
  mv_san :: string
  mv_isWhite :: bool
  mv_promotion :: "pieceType option"

text \<open>
  \<^verbatim>\<open>TimelineData\<close>. The chess instance is the external chess.js object; its
  type is the parameter \<open>'c\<close>, and its two methods used here are passed to the operations
  as functions: \<^verbatim>\<open>fen()\<close> as \<open>'c \<Rightarrow> string\<close> and \<^verbatim>\<open>load(fen)\<close>, which mutates the
  instance and returns whether it succeeded, as \<open>'c \<Rightarrow> string \<Rightarrow> bool \<times> 'c\<close>.
\<close>

record 'c timelineData =
  tl_id :: int
  tl_chess :: 'c
  tl_moveHistory :: "move list"
  tl_snapshots :: "anySnapshot list"
  tl_parentId :: "int option"
  tl_branchTurn :: int
  tl_xOffset :: int
  tl_name :: string

text \<open>\<^verbatim>\<open>TimelineState\<close>: the captured state of a timeline.\<close>

record timelineState =
  st_id :: int
  st_fen :: string
  st_moveHistory :: "move list"
  st_snapshots :: "anySnapshot list"
  st_label :: string

text \<open>
  The fields of \<^verbatim>\<open>TimelineTransaction\<close>. The JavaScript \<^verbatim>\<open>Map\<close> iterates in
  insertion order, so \<open>capturedStates\<close> is an association list in that order.
\<close>

record timelineTransaction =
  capturedStates :: "(int \<times> timelineState) list"
  newTimelineIds :: "int list"
  committed :: bool
  rolledBack :: bool

text \<open>The registry \<^verbatim>\<open>Record<number, TimelineData>\<close>.\<close>

type_synonym 'c registry = "int \<rightharpoonup> 'c timelineData"

text \<open>
  The two \<^verbatim>\<open>Error\<close>s the class throws, by message, and whatever
  \<^verbatim>\<open>timeline.chess.load\<close> throws: rollback calls it at line 166 outside any
  \<^verbatim>\<open>try\<close>, so its exception leaves rollback.
\<close>

datatype error =
  TransactionAlreadyFinalized
| CannotRollbackCommitted
| ChessLoadError

text \<open>
  A call \<^verbatim>\<open>load(fen)\<close> returns or throws, and leaves the instance in some state
  either way. Of what it returns only the truthiness is used (line 167).
\<close>

datatype 'c loadOutcome =
  LoadReturned bool 'c
| LoadThrew 'c

text \<open>
  What rollback does to the world outside the transaction, in order: a call of the
  \<^verbatim>\<open>onDeleteTimeline\<close> callback, \<^verbatim>\<open>delete timelines[id]\<close>, the call
  \<^verbatim>\<open>timeline.chess.load(fen)\<close> with its result when it returned, the same call when it
  threw, and the two assignments to the timeline. The callback belongs to the rendering
  layer; it is taken to return normally and not to write to the registry.
\<close>

datatype effect =
  OnDeleteTimeline int
| DeleteTimeline int
| LoadFen int string bool
| LoadFenThrew int string
| SetMoveHistory int
| SetSnapshots int

definition newTransaction :: timelineTransaction where
  "newTransaction =
     \<lparr>capturedStates = [], newTimelineIds = [], committed = False, rolledBack = False\<rparr>"

section \<open>Deep cloning\<close>

text \<open>
  The four private helpers, on values: two values are equal exactly when the JavaScript
  objects are structurally equal. What the helpers allocate is the subject of the next
  section, which ends in the same function on values (lemma \<open>deepCloneSnapshotS_refines\<close>).
\<close>

definition deepCloneMoveHistory :: "move list \<Rightarrow> move list" where
  "deepCloneMoveHistory moves =
     map (\<lambda>m. \<lparr>mv_from = mv_from m, mv_to = mv_to m, mv_piece = mv_piece m,
               mv_captured = mv_captured m, mv_san = mv_san m, mv_isWhite = mv_isWhite m,
               mv_promotion = mv_promotion m\<rparr>) moves"

text \<open>\<^verbatim>\<open>board[r]?.[c]\<close>: a missing row or a missing cell reads as undefined, which is falsy.\<close>

definition boardCell :: "board \<Rightarrow> nat \<Rightarrow> nat \<Rightarrow> piece option" where
  "boardCell b r c =
     (if r < length b then (if c < length (b ! r) then b ! r ! c else None) else None)"

definition deepCloneBoard :: "board \<Rightarrow> board" where
  "deepCloneBoard b =
     map (\<lambda>r. map (\<lambda>c. case boardCell b r c of
                          Some p \<Rightarrow> Some \<lparr>pc_type = pc_type p, pc_color = pc_color p\<rparr>
                        | None \<Rightarrow> None) [0..<8]) [0..<8]"

fun deepCloneSnapshot :: "anySnapshot \<Rightarrow> anySnapshot" where
  "deepCloneSnapshot (BareBoard b) = BareBoard (deepCloneBoard b)"
| "deepCloneSnapshot (FenBoard f b) = FenBoard f (deepCloneBoard b)"

definition deepCloneSnapshots :: "anySnapshot list \<Rightarrow> anySnapshot list" where
  "deepCloneSnapshots snaps = map deepCloneSnapshot snaps"

section \<open>Boards as objects in a store\<close>

text \<open>
  The functions above copy values, and a value cannot be shared. To say that a clone
  shares no structure with its original, the arrays and piece objects are placed in a
  store: an address is the index of an object, allocation appends an object, and nothing
  is ever freed. An element of an array object is a reference or empty (\<^verbatim>\<open>null\<close>, or
  \<^verbatim>\<open>undefined\<close> for a hole); the elements of a board array refer to row arrays, those
  of a row array to piece objects.
\<close>

type_synonym addr = nat

record store =
  arrays :: "addr option list list"
  pieces :: "piece list"

text \<open>The array literal \<^verbatim>\<open>[]\<close> and the object literal \<^verbatim>\<open>{ type, color }\<close>.\<close>

definition newArray :: "store \<Rightarrow> addr \<times> store" where
  "newArray s = (length (arrays s), s\<lparr>arrays := arrays s @ [Nil]\<rparr>)"

definition newPiece :: "piece \<Rightarrow> store \<Rightarrow> addr \<times> store" where
  "newPiece p s = (length (pieces s), s\<lparr>pieces := pieces s @ [p]\<rparr>)"

text \<open>
  Reading. An address that was never allocated cannot occur in JavaScript; there
  \<open>arrayAt\<close> is the empty array and \<open>pieceAt\<close> is nothing. \<open>element\<close> is \<^verbatim>\<open>arr[i]\<close>,
  which is undefined beyond the length.
\<close>

definition arrayAt :: "store \<Rightarrow> addr \<Rightarrow> addr option list" where
  "arrayAt s a = (if a < length (arrays s) then arrays s ! a else [])"

definition pieceAt :: "store \<Rightarrow> addr \<Rightarrow> piece option" where
  "pieceAt s a = (if a < length (pieces s) then Some (pieces s ! a) else None)"

definition element :: "store \<Rightarrow> addr \<Rightarrow> nat \<Rightarrow> addr option" where
  "element s a i = (if i < length (arrayAt s a) then arrayAt s a ! i else None)"

text \<open>\<^verbatim>\<open>arr[i] = v\<close>: an assignment beyond the length extends the array, leaving holes.\<close>

definition setElement :: "store \<Rightarrow> addr \<Rightarrow> nat \<Rightarrow> addr option \<Rightarrow> store" where
  "setElement s a i v =
     s\<lparr>arrays := (arrays s)[a :=
         (if i < length (arrayAt s a) then (arrayAt s a)[i := v]
          else arrayAt s a @ replicate (i - length (arrayAt s a)) None @ [v])]\<rparr>"

text \<open>\<^verbatim>\<open>board[r]?.[c]\<close>\<close>

definition storedCell :: "store \<Rightarrow> addr \<Rightarrow> nat \<Rightarrow> nat \<Rightarrow> addr option" where
  "storedCell s board r c =
     (case element s board r of None \<Rightarrow> None | Some row \<Rightarrow> element s row c)"

text \<open>
  The body of the inner loop of deepCloneBoard (lines 242 and 243); \<open>row\<close> is the array
  that line 240 stored in \<^verbatim>\<open>clone[r]\<close>. A reference to a piece that was never
  allocated, which JavaScript cannot hold, is treated as empty.
\<close>

definition cloneCell :: "addr \<Rightarrow> nat \<Rightarrow> addr \<Rightarrow> nat \<Rightarrow> store \<Rightarrow> store" where
  "cloneCell board r row c s =
     (case storedCell s board r c of
        None \<Rightarrow> setElement s row c None
      | Some a \<Rightarrow>
          (case pieceAt s a of
             None \<Rightarrow> setElement s row c None
           | Some p \<Rightarrow>
               (case newPiece \<lparr>pc_type = pc_type p, pc_color = pc_color p\<rparr> s of
                  (a', s') \<Rightarrow> setElement s' row c (Some a'))))"

text \<open>The body of the outer loop (lines 240 to 244), and the function.\<close>

definition cloneRow :: "addr \<Rightarrow> addr \<Rightarrow> nat \<Rightarrow> store \<Rightarrow> store" where
  "cloneRow board clone r s =
     (case newArray s of
        (row, s') \<Rightarrow> fold (cloneCell board r row) [0..<8] (setElement s' clone r (Some row)))"

definition deepCloneBoardS :: "store \<Rightarrow> addr \<Rightarrow> addr \<times> store" where
  "deepCloneBoardS s board =
     (case newArray s of (clone, s') \<Rightarrow> (clone, fold (cloneRow board clone) [0..<8] s'))"

text \<open>
  A snapshot by reference: the old format is the board array itself, the new format an
  object holding the positional string and the board array. deepCloneSnapshot returns the
  clone of the board array, or a new object around it.
\<close>

datatype snapshotRef = BareBoardRef addr | FenBoardRef string addr

fun deepCloneSnapshotS :: "store \<Rightarrow> snapshotRef \<Rightarrow> snapshotRef \<times> store" where
  "deepCloneSnapshotS s (BareBoardRef b) =
     (case deepCloneBoardS s b of (c, s') \<Rightarrow> (BareBoardRef c, s'))"
| "deepCloneSnapshotS s (FenBoardRef f b) =
     (case deepCloneBoardS s b of (c, s') \<Rightarrow> (FenBoardRef f c, s'))"

fun boardOf :: "snapshotRef \<Rightarrow> addr" where
  "boardOf (BareBoardRef b) = b"
| "boardOf (FenBoardRef f b) = b"

fun isBare :: "snapshotRef \<Rightarrow> bool" where
  "isBare (BareBoardRef b) = True"
| "isBare (FenBoardRef f b) = False"

text \<open>The value that the objects reachable from an address stand for.\<close>

definition rowValue :: "store \<Rightarrow> addr \<Rightarrow> piece option list" where
  "rowValue s row = map (\<lambda>e. case e of None \<Rightarrow> None | Some a \<Rightarrow> pieceAt s a) (arrayAt s row)"

definition boardValue :: "store \<Rightarrow> addr \<Rightarrow> board" where
  "boardValue s b = map (\<lambda>e. case e of None \<Rightarrow> [] | Some row \<Rightarrow> rowValue s row) (arrayAt s b)"

fun snapshotValue :: "store \<Rightarrow> snapshotRef \<Rightarrow> anySnapshot" where
  "snapshotValue s (BareBoardRef b) = BareBoard (boardValue s b)"
| "snapshotValue s (FenBoardRef f b) = FenBoard f (boardValue s b)"

text \<open>The row arrays and the piece objects that a board array reaches.\<close>

definition refs :: "addr option list \<Rightarrow> addr list" where
  "refs xs = concat (map (\<lambda>e. case e of None \<Rightarrow> [] | Some a \<Rightarrow> [a]) xs)"

definition rowsOf :: "store \<Rightarrow> addr \<Rightarrow> addr list" where
  "rowsOf s b = refs (arrayAt s b)"

definition piecesOf :: "store \<Rightarrow> addr \<Rightarrow> addr list" where
  "piecesOf s b = concat (map (\<lambda>row. refs (arrayAt s row)) (rowsOf s b))"

text \<open>
  An address holds a board when it is allocated, every element of its array refers to an
  allocated row array, and every reference in a row is to an allocated piece: what the
  type \<^verbatim>\<open>(Piece | null)[][]\<close> says of a value.
\<close>

definition rowObject :: "store \<Rightarrow> addr \<Rightarrow> bool" where
  "rowObject s row =
     (row < length (arrays s) \<and> list_all (\<lambda>p. p < length (pieces s)) (refs (arrayAt s row)))"

definition boardObject :: "store \<Rightarrow> addr \<Rightarrow> bool" where
  "boardObject s b =
     (b < length (arrays s) \<and>
      list_all (\<lambda>e. case e of None \<Rightarrow> False | Some row \<Rightarrow> rowObject s row) (arrayAt s b))"

text \<open>
  A store reached from another by allocating and by writing to arrays (used in the proofs
  only).
\<close>

definition later :: "store \<Rightarrow> store \<Rightarrow> bool" where
  "later s s' = (length (arrays s) \<le> length (arrays s') \<and> (\<exists>ps. pieces s' = pieces s @ ps))"

section \<open>The transaction\<close>

definition isFinalized :: "timelineTransaction \<Rightarrow> bool" where
  "isFinalized tx = (committed tx \<or> rolledBack tx)"

text \<open>The object \<^verbatim>\<open>state\<close> that captureTimeline builds (lines 69 to 75).\<close>

definition capturedState :: "('c \<Rightarrow> string) \<Rightarrow> 'c timelineData \<Rightarrow> string \<Rightarrow> timelineState" where
  "capturedState chess_fen timeline label =
     \<lparr>st_id = tl_id timeline,
      st_fen = chess_fen (tl_chess timeline),
      st_moveHistory = deepCloneMoveHistory (tl_moveHistory timeline),
      st_snapshots = deepCloneSnapshots (tl_snapshots timeline),
      st_label = label\<rparr>"

definition captureTimeline ::
  "('c \<Rightarrow> string) \<Rightarrow> timelineTransaction \<Rightarrow> 'c timelineData \<Rightarrow> string
     \<Rightarrow> error + timelineTransaction" where
  "captureTimeline chess_fen tx timeline label =
     (if committed tx \<or> rolledBack tx then Inl TransactionAlreadyFinalized
      else if map_of (capturedStates tx) (tl_id timeline) \<noteq> None then Inr tx
      else Inr (tx\<lparr>capturedStates := capturedStates tx @
              [(tl_id timeline, capturedState chess_fen timeline label)]\<rparr>))"

definition captureNewTimeline :: "timelineTransaction \<Rightarrow> int \<Rightarrow> error + timelineTransaction" where
  "captureNewTimeline tx newId =
     (if committed tx \<or> rolledBack tx then Inl TransactionAlreadyFinalized
      else Inr (tx\<lparr>newTimelineIds := newTimelineIds tx @ [newId]\<rparr>))"

definition commit :: "timelineTransaction \<Rightarrow> error + timelineTransaction" where
  "commit tx =
     (if committed tx \<or> rolledBack tx then Inl TransactionAlreadyFinalized
      else Inr (tx\<lparr>committed := True\<rparr>))"

text \<open>
  Step 1 of rollback, the loop over \<open>newTimelineIds\<close>. The flag says whether the optional
  callback was passed.
\<close>

fun deleteNewTimelines ::
  "bool \<Rightarrow> int list \<Rightarrow> 'c registry \<Rightarrow> 'c registry \<times> effect list" where
  "deleteNewTimelines cb [] timelines = (timelines, [])"
| "deleteNewTimelines cb (newId # ids) timelines =
     (if timelines newId \<noteq> None then
        (case deleteNewTimelines cb ids (timelines(newId := None)) of
           (timelines', es) \<Rightarrow>
             (timelines', (if cb then [OnDeleteTimeline newId] else []) @
                          DeleteTimeline newId # es))
      else deleteNewTimelines cb ids timelines)"

text \<open>
  Step 2 of rollback, the loop over \<open>capturedStates\<close>. First the body for a timeline
  found in the registry (lines 165 to 176). When load returns, its result is only logged
  and the two assignments follow whatever it was. When load throws, nothing catches the
  exception: the two assignments are not reached. The result is what was raised, if
  anything, the timeline as it is then, and the effects.
\<close>

definition restoreTimeline ::
  "('c \<Rightarrow> string \<Rightarrow> 'c loadOutcome) \<Rightarrow> int \<Rightarrow> timelineState \<Rightarrow> 'c timelineData
     \<Rightarrow> error option \<times> 'c timelineData \<times> effect list" where
  "restoreTimeline chess_load i state timeline =
     (case chess_load (tl_chess timeline) (st_fen state) of
        LoadThrew chess' \<Rightarrow>
          (Some ChessLoadError, timeline\<lparr>tl_chess := chess'\<rparr>, [LoadFenThrew i (st_fen state)])
      | LoadReturned loaded chess' \<Rightarrow>
          (None,
           timeline\<lparr>tl_chess := chess',
                    tl_moveHistory := deepCloneMoveHistory (st_moveHistory state),
                    tl_snapshots := deepCloneSnapshots (st_snapshots state)\<rparr>,
           [LoadFen i (st_fen state) loaded, SetMoveHistory i, SetSnapshots i]))"

text \<open>The loop: an exception ends it, with the remaining captured timelines untouched.\<close>

fun restoreCaptured ::
  "('c \<Rightarrow> string \<Rightarrow> 'c loadOutcome) \<Rightarrow> (int \<times> timelineState) list \<Rightarrow> 'c registry
     \<Rightarrow> error option \<times> 'c registry \<times> effect list" where
  "restoreCaptured chess_load [] timelines = (None, timelines, [])"
| "restoreCaptured chess_load ((i, state) # rest) timelines =
     (case timelines i of
        None \<Rightarrow> restoreCaptured chess_load rest timelines
      | Some timeline \<Rightarrow>
          (case restoreTimeline chess_load i state timeline of
             (Some e, timeline', es) \<Rightarrow> (Some e, timelines(i \<mapsto> timeline'), es)
           | (None, timeline', es) \<Rightarrow>
               (case restoreCaptured chess_load rest (timelines(i \<mapsto> timeline')) of
                  (raised, timelines', es') \<Rightarrow> (raised, timelines', es @ es'))))"

text \<open>
  rollback writes to the registry before it is done, so its result is what it raised, if
  anything, together with the transaction, the registry and the effects as they are when
  the call ends. The two guards throw before anything is written; an exception from load
  ends the call after step 1 and part of step 2, before line 179 sets the rolled-back flag.
\<close>

definition rollback ::
  "('c \<Rightarrow> string \<Rightarrow> 'c loadOutcome) \<Rightarrow> timelineTransaction \<Rightarrow> 'c registry \<Rightarrow> bool
     \<Rightarrow> error option \<times> timelineTransaction \<times> 'c registry \<times> effect list" where
  "rollback chess_load tx timelines cb =
     (if committed tx then (Some CannotRollbackCommitted, tx, timelines, [])
      else if rolledBack tx then (None, tx, timelines, [])
      else (case deleteNewTimelines cb (newTimelineIds tx) timelines of
              (timelines1, es1) \<Rightarrow>
                (case restoreCaptured chess_load (capturedStates tx) timelines1 of
                   (Some e, timelines2, es2) \<Rightarrow> (Some e, tx, timelines2, es1 @ es2)
                 | (None, timelines2, es2) \<Rightarrow>
                     (None, tx\<lparr>rolledBack := True\<rparr>, timelines2, es1 @ es2))))"

section \<open>Using a transaction\<close>

text \<open>
  The capture calls a caller makes on one transaction between its creation and its
  finalization, run in order; a call that throws ends the run with its error. The timeline
  passed to captureTimeline is the timeline as it is at the moment of that call.
\<close>

datatype 'c txCall =
  CaptureTimeline "'c timelineData" string
| CaptureNewTimeline int

fun applyCall ::
  "('c \<Rightarrow> string) \<Rightarrow> timelineTransaction \<Rightarrow> 'c txCall \<Rightarrow> error + timelineTransaction" where
  "applyCall chess_fen tx (CaptureTimeline timeline label) =
     captureTimeline chess_fen tx timeline label"
| "applyCall chess_fen tx (CaptureNewTimeline newId) = captureNewTimeline tx newId"

fun applyCalls ::
  "('c \<Rightarrow> string) \<Rightarrow> timelineTransaction \<Rightarrow> 'c txCall list
     \<Rightarrow> error + timelineTransaction" where
  "applyCalls chess_fen tx [] = Inr tx"
| "applyCalls chess_fen tx (c # cs) =
     (case applyCall chess_fen tx c of
        Inl e \<Rightarrow> Inl e
      | Inr tx' \<Rightarrow> applyCalls chess_fen tx' cs)"

text \<open>The first captureTimeline call for a given timeline id among the calls, if any.\<close>

fun firstCaptured :: "'c txCall list \<Rightarrow> int \<Rightarrow> ('c timelineData \<times> string) option" where
  "firstCaptured [] i = None"
| "firstCaptured (CaptureTimeline timeline label # cs) i =
     (if tl_id timeline = i then Some (timeline, label) else firstCaptured cs i)"
| "firstCaptured (CaptureNewTimeline newId # cs) i = firstCaptured cs i"

text \<open>The ids passed to captureNewTimeline among the calls, in order.\<close>

fun recordedNew :: "'c txCall list \<Rightarrow> int list" where
  "recordedNew [] = []"
| "recordedNew (CaptureTimeline timeline label # cs) = recordedNew cs"
| "recordedNew (CaptureNewTimeline newId # cs) = newId # recordedNew cs"

text \<open>The two phases of rollback, by their effects.\<close>

fun isDeletion :: "effect \<Rightarrow> bool" where
  "isDeletion (OnDeleteTimeline i) = True"
| "isDeletion (DeleteTimeline i) = True"
| "isDeletion e = False"

fun isRestoration :: "effect \<Rightarrow> bool" where
  "isRestoration (LoadFen i f ok) = True"
| "isRestoration (LoadFenThrew i f) = True"
| "isRestoration (SetMoveHistory i) = True"
| "isRestoration (SetSnapshots i) = True"
| "isRestoration e = False"

text \<open>
  Whether a call of load returned; a load that never throws; that the calls of load
  which step 2 has to make on a registry all return (one call for each captured timeline
  found in the registry, on the instance the registry holds); and the same for rollback,
  whose step 2 works on the registry without the ids recorded as new.
\<close>

fun returned :: "'c loadOutcome \<Rightarrow> bool" where
  "returned (LoadReturned loaded chess') = True"
| "returned (LoadThrew chess') = False"

definition neverThrows :: "('c \<Rightarrow> string \<Rightarrow> 'c loadOutcome) \<Rightarrow> bool" where
  "neverThrows chess_load = (\<forall>c s. returned (chess_load c s))"

definition loadsOk ::
  "('c \<Rightarrow> string \<Rightarrow> 'c loadOutcome) \<Rightarrow> (int \<times> timelineState) list \<Rightarrow> 'c registry \<Rightarrow> bool" where
  "loadsOk chess_load states timelines =
     list_all (\<lambda>(j, state).
        case timelines j of
          None \<Rightarrow> True
        | Some timeline \<Rightarrow> returned (chess_load (tl_chess timeline) (st_fen state))) states"

definition loadsReturn ::
  "('c \<Rightarrow> string \<Rightarrow> 'c loadOutcome) \<Rightarrow> timelineTransaction \<Rightarrow> 'c registry \<Rightarrow> bool" where
  "loadsReturn chess_load tx timelines =
     loadsOk chess_load (capturedStates tx)
       (\<lambda>j. if j \<in> set (newTimelineIds tx) then None else timelines j)"

text \<open>A board of eight rows of eight cells, and a snapshot holding one.\<close>

definition is8x8 :: "board \<Rightarrow> bool" where
  "is8x8 b = (length b = 8 \<and> list_all (\<lambda>row. length row = 8) b)"

fun snapshot8x8 :: "anySnapshot \<Rightarrow> bool" where
  "snapshot8x8 (BareBoard b) = is8x8 b"
| "snapshot8x8 (FenBoard f b) = is8x8 b"

section \<open>Concrete chess instances for evaluation\<close>

text \<open>
  Modelled from the spec: the chess instance (chess.js behind the \<^verbatim>\<open>ChessInstance\<close>
  declaration of \<^verbatim>\<open>./types\<close>) is not among the sources. The theorems below hold for
  every pair of functions standing for \<^verbatim>\<open>fen()\<close> and \<^verbatim>\<open>load()\<close>; the stand-ins
  serve where a statement is evaluated at concrete values. The instance is its positional
  string (piece placement, side to move, castling, en passant, halfmove, fullmove), and
  \<^verbatim>\<open>fen()\<close> returns it.

  \<open>sampleLoad\<close> is a load as rollback's test of the result expects it: it takes a string
  of six space-separated fields and returns true, and it returns false on any other,
  leaving the instance as it was.

  \<open>validatingLoad\<close> is a load after the chess.js that STOCKFISH_PLAN.md refers to (the
  one with the \<^verbatim>\<open>skipValidation\<close> option, which line 166 does not pass): it takes a
  string of six fields whose placement has one king of each colour and returns nothing,
  which is falsy; on any other string it throws and leaves the instance as it was.
\<close>

definition sampleFen :: "string \<Rightarrow> string" where
  "sampleFen c = c"

definition sampleLoad :: "string \<Rightarrow> string \<Rightarrow> string loadOutcome" where
  "sampleLoad c s =
     (if length (filter (\<lambda>x. x = CHR '' '') s) = 5 then LoadReturned True s
      else LoadReturned False c)"

definition fenAccepted :: "string \<Rightarrow> bool" where
  "fenAccepted s =
     (length (filter (\<lambda>x. x = CHR '' '') s) = 5 \<and>
      length (filter (\<lambda>x. x = CHR ''K'') (takeWhile (\<lambda>x. x \<noteq> CHR '' '') s)) = 1 \<and>
      length (filter (\<lambda>x. x = CHR ''k'') (takeWhile (\<lambda>x. x \<noteq> CHR '' '') s)) = 1)"

definition validatingLoad :: "string \<Rightarrow> string \<Rightarrow> string loadOutcome" where
  "validatingLoad c s = (if fenAccepted s then LoadReturned False s else LoadThrew c)"

text \<open>
  Two timelines before and after a move and a branch timeline, and a timeline whose
  black king has been taken, before and after a move.
\<close>

definition sampleMove :: move where
  "sampleMove = \<lparr>mv_from = ''e1'', mv_to = ''e2'', mv_piece = \<lparr>pc_type = King, pc_color = White\<rparr>,
     mv_captured = None, mv_san = ''Ke2'', mv_isWhite = True, mv_promotion = None\<rparr>"

definition sampleBoard :: board where
  "sampleBoard = replicate 7 (replicate 8 None) @
     [ [None, None, None, None, Some \<lparr>pc_type = King, pc_color = White\<rparr>, None, None, None] ]"

definition sourceAtCapture :: "string timelineData" where
  "sourceAtCapture =
     \<lparr>tl_id = 1, tl_chess = ''4k3/8/8/8/8/8/8/4K3 w - - 0 1'', tl_moveHistory = [],
      tl_snapshots = [BareBoard sampleBoard], tl_parentId = None, tl_branchTurn = 0,
      tl_xOffset = 0, tl_name = ''main''\<rparr>"

definition sourceMutated :: "string timelineData" where
  "sourceMutated =
     sourceAtCapture\<lparr>tl_chess := ''4k3/8/8/8/8/8/4K3/8 b - - 1 1'',
       tl_moveHistory := [sampleMove],
       tl_snapshots := [BareBoard sampleBoard, FenBoard ''4k3/8/8/8/8/8/4K3/8 b - - 1 1'' sampleBoard]\<rparr>"

definition branchTimeline :: "string timelineData" where
  "branchTimeline =
     \<lparr>tl_id = 2, tl_chess = ''4k3/8/8/8/8/8/8/3QK3 w - - 0 1'', tl_moveHistory = [],
      tl_snapshots = [], tl_parentId = Some 1, tl_branchTurn = 0,
      tl_xOffset = 10, tl_name = ''branch''\<rparr>"

definition targetAtCapture :: "string timelineData" where
  "targetAtCapture =
     \<lparr>tl_id = 3, tl_chess = ''4k3/8/8/8/8/8/8/3QK3 w - - 0 1'', tl_moveHistory = [sampleMove],
      tl_snapshots = [FenBoard ''4k3/8/8/8/8/8/8/3QK3 w - - 0 1'' sampleBoard], tl_parentId = Some 1,
      tl_branchTurn = 0, tl_xOffset = 5, tl_name = ''target''\<rparr>"

definition targetMutated :: "string timelineData" where
  "targetMutated =
     targetAtCapture\<lparr>tl_chess := ''4k3/8/8/8/8/8/8/4K3 b - - 0 1'',
       tl_moveHistory := [sampleMove, sampleMove], tl_snapshots := []\<rparr>"

definition sampleCalls :: "string txCall list" where
  "sampleCalls =
     [CaptureTimeline sourceAtCapture ''source'', CaptureNewTimeline 2,
      CaptureTimeline targetAtCapture ''target'', CaptureTimeline sourceMutated ''source'']"

definition sampleTx :: timelineTransaction where
  "sampleTx =
     \<lparr>capturedStates =
        [(1, capturedState sampleFen sourceAtCapture ''source''),
         (3, capturedState sampleFen targetAtCapture ''target'')],
      newTimelineIds = [2], committed = False, rolledBack = False\<rparr>"

definition sampleRegistry :: "string registry" where
  "sampleRegistry = [1 \<mapsto> sourceMutated, 2 \<mapsto> branchTimeline, 3 \<mapsto> targetMutated]"

definition kinglessAtCapture :: "string timelineData" where
  "kinglessAtCapture =
     \<lparr>tl_id = 4, tl_chess = ''8/8/8/8/8/8/8/4K3 w - - 0 1'', tl_moveHistory = [],
      tl_snapshots = [BareBoard sampleBoard], tl_parentId = None, tl_branchTurn = 0,
      tl_xOffset = 15, tl_name = ''kingless''\<rparr>"

definition kinglessMutated :: "string timelineData" where
  "kinglessMutated =
     kinglessAtCapture\<lparr>tl_chess := ''8/8/8/8/8/8/4K3/8 b - - 1 1'',
       tl_moveHistory := [sampleMove],
       tl_snapshots := [BareBoard sampleBoard, BareBoard sampleBoard]\<rparr>"

definition kinglessTx :: timelineTransaction where
  "kinglessTx =
     \<lparr>capturedStates =
        [(4, capturedState sampleFen kinglessAtCapture ''source''),
         (3, capturedState sampleFen targetAtCapture ''target'')],
      newTimelineIds = [], committed = False, rolledBack = False\<rparr>"

definition kinglessRegistry :: "string registry" where
  "kinglessRegistry = [4 \<mapsto> kinglessMutated, 3 \<mapsto> targetMutated]"

text \<open>A store holding the sample board at address 8, its rows at 0 to 7.\<close>

definition sampleStore :: store where
  "sampleStore =
     \<lparr>arrays = replicate 7 (replicate 8 None) @
        [ [None, None, None, None, Some 0, None, None, None],
         [Some 0, Some 1, Some 2, Some 3, Some 4, Some 5, Some 6, Some 7] ],
      pieces = [\<lparr>pc_type = King, pc_color = White\<rparr>]\<rparr>"

section \<open>Lemmas\<close>

subsection \<open>Cloning values\<close>

lemma piece_copy: "\<lparr>pc_type = pc_type p, pc_color = pc_color p\<rparr> = p" by simp

lemma opt_copy: "(case x of Some p \<Rightarrow> Some \<lparr>pc_type = pc_type p, pc_color = pc_color p\<rparr> | None \<Rightarrow> None) = x"
  by (cases x) simp_all

lemma deepCloneBoard_cells: "deepCloneBoard b = map (\<lambda>r. map (\<lambda>c. boardCell b r c) [0..<8]) [0..<8]"
  by (simp only: deepCloneBoard_def opt_copy)

lemma deepCloneBoard_8x8: "is8x8 (deepCloneBoard b)"
  by (simp add: deepCloneBoard_cells is8x8_def list_all_iff)

lemma deepCloneBoard_id: "is8x8 b \<Longrightarrow> deepCloneBoard b = b"
proof -
  assume wf: "is8x8 b"
  then have len: "length b = 8" and rows: "\<And>r. r < 8 \<Longrightarrow> length (b ! r) = 8"
    by (auto simp: is8x8_def list_all_length)
  show ?thesis
  proof (rule nth_equalityI)
    show "length (deepCloneBoard b) = length b" by (simp add: deepCloneBoard_cells len)
  next
    fix r assume "r < length (deepCloneBoard b)"
    then have r: "r < 8" by (simp add: deepCloneBoard_cells)
    show "deepCloneBoard b ! r = b ! r"
    proof (rule nth_equalityI)
      show "length (deepCloneBoard b ! r) = length (b ! r)" using r rows[OF r]
        by (simp add: deepCloneBoard_cells)
    next
      fix c assume "c < length (deepCloneBoard b ! r)"
      then have c: "c < 8" using r by (simp add: deepCloneBoard_cells)
      show "deepCloneBoard b ! r ! c = b ! r ! c" using r c len rows[OF r]
        by (simp add: deepCloneBoard_cells boardCell_def)
    qed
  qed
qed

lemma deepCloneBoard_idem: "deepCloneBoard (deepCloneBoard b) = deepCloneBoard b"
  by (rule deepCloneBoard_id) (rule deepCloneBoard_8x8)

lemma deepCloneSnapshot_idem: "deepCloneSnapshot (deepCloneSnapshot s) = deepCloneSnapshot s"
  by (cases s) (simp_all add: deepCloneBoard_idem)

lemma deepCloneSnapshot_id: "snapshot8x8 s \<Longrightarrow> deepCloneSnapshot s = s"
  by (cases s) (simp_all add: deepCloneBoard_id)

lemma deepCloneSnapshots_idem: "deepCloneSnapshots (deepCloneSnapshots ss) = deepCloneSnapshots ss"
  by (simp add: deepCloneSnapshots_def deepCloneSnapshot_idem)

lemma deepCloneSnapshots_id: "list_all snapshot8x8 ss \<Longrightarrow> deepCloneSnapshots ss = ss"
  by (induction ss) (simp_all add: deepCloneSnapshots_def deepCloneSnapshot_id)

lemma deepCloneMoveHistory_id: "deepCloneMoveHistory ms = ms"
  by (induction ms) (simp_all add: deepCloneMoveHistory_def)

subsection \<open>deleteNewTimelines\<close>

lemma deleteNewTimelines_Cons:
  "fst (deleteNewTimelines cb (a # ids) R) =
     (if R a \<noteq> None then fst (deleteNewTimelines cb ids (R(a := None)))
      else fst (deleteNewTimelines cb ids R))"
  "snd (deleteNewTimelines cb (a # ids) R) =
     (if R a \<noteq> None then
        (if cb then [OnDeleteTimeline a] else []) @
          DeleteTimeline a # snd (deleteNewTimelines cb ids (R(a := None)))
      else snd (deleteNewTimelines cb ids R))"
  by (simp_all split: prod.splits)

lemma deleteNewTimelines_registry:
  "fst (deleteNewTimelines cb ids R) i = (if i \<in> set ids then None else R i)"
proof (induction ids arbitrary: R)
  case Nil
  show ?case by simp
next
  case (Cons a ids)
  show ?case
  proof (cases "R a")
    case None
    have "fst (deleteNewTimelines cb ids R) i = (if i \<in> set ids then None else R i)"
      by (rule Cons.IH)
    then show ?thesis using None
      by (simp add: deleteNewTimelines_Cons del: deleteNewTimelines.simps(2))
  next
    case (Some t)
    have "fst (deleteNewTimelines cb ids (R(a := None))) i =
        (if i \<in> set ids then None else (R(a := None)) i)"
      by (rule Cons.IH)
    then show ?thesis using Some
      by (simp add: deleteNewTimelines_Cons del: deleteNewTimelines.simps(2))
  qed
qed

lemma deleteNewTimelines_effects:
  "list_all isDeletion (snd (deleteNewTimelines cb ids R))"
  by (induction ids arbitrary: R)
    (simp_all add: deleteNewTimelines_Cons del: deleteNewTimelines.simps(2))

lemma deleteNewTimelines_count:
  "count_list (snd (deleteNewTimelines cb ids R)) (OnDeleteTimeline i) =
     (if cb \<and> i \<in> set ids \<and> R i \<noteq> None then 1 else 0) \<and>
   count_list (snd (deleteNewTimelines cb ids R)) (DeleteTimeline i) =
     (if i \<in> set ids \<and> R i \<noteq> None then 1 else 0)"
proof (induction ids arbitrary: R)
  case Nil
  show ?case by simp
next
  case (Cons a ids)
  let ?P = "\<lambda>R. count_list (snd (deleteNewTimelines cb ids R)) (OnDeleteTimeline i) =
     (if cb \<and> i \<in> set ids \<and> R i \<noteq> None then 1 else 0) \<and>
   count_list (snd (deleteNewTimelines cb ids R)) (DeleteTimeline i) =
     (if i \<in> set ids \<and> R i \<noteq> None then 1 else 0)"
  show ?case
  proof (cases "R a")
    case None
    have "?P R" by (rule Cons.IH)
    then show ?thesis using None
      by (auto simp: deleteNewTimelines_Cons simp del: deleteNewTimelines.simps(2))
  next
    case (Some t)
    have "?P (R(a := None))" by (rule Cons.IH)
    then show ?thesis using Some
      by (auto simp: deleteNewTimelines_Cons simp del: deleteNewTimelines.simps(2))
  qed
qed

lemma deleteNewTimelines_absent:
  "R i = None \<Longrightarrow> OnDeleteTimeline i \<notin> set (snd (deleteNewTimelines cb ids R)) \<and>
     DeleteTimeline i \<notin> set (snd (deleteNewTimelines cb ids R))"
  using deleteNewTimelines_count [of cb ids R i] by (simp add: count_list_0_iff)

lemma deleteNewTimelines_once:
  "i \<in> set ids \<Longrightarrow> R i \<noteq> None \<Longrightarrow>
     \<exists>pre post. snd (deleteNewTimelines True ids R) =
         pre @ [OnDeleteTimeline i, DeleteTimeline i] @ post \<and>
       OnDeleteTimeline i \<notin> set pre \<and> DeleteTimeline i \<notin> set pre \<and>
       OnDeleteTimeline i \<notin> set post \<and> DeleteTimeline i \<notin> set post"
proof (induction ids arbitrary: R)
  case Nil
  then show ?case by simp
next
  case (Cons a ids)
  show ?case
  proof (cases "a = i")
    case True
    let ?es = "snd (deleteNewTimelines True ids (R(i := None)))"
    have "OnDeleteTimeline i \<notin> set ?es \<and> DeleteTimeline i \<notin> set ?es"
      by (rule deleteNewTimelines_absent) simp
    moreover have "snd (deleteNewTimelines True (a # ids) R) =
        [] @ [OnDeleteTimeline i, DeleteTimeline i] @ ?es"
      using True Cons.prems by (simp add: deleteNewTimelines_Cons del: deleteNewTimelines.simps(2))
    ultimately show ?thesis by (metis empty_iff list.set(1))
  next
    case False
    then have mem: "i \<in> set ids" using Cons.prems by simp
    show ?thesis
    proof (cases "R a")
      case None
      have "\<exists>pre post. snd (deleteNewTimelines True ids R) =
         pre @ [OnDeleteTimeline i, DeleteTimeline i] @ post \<and>
       OnDeleteTimeline i \<notin> set pre \<and> DeleteTimeline i \<notin> set pre \<and>
       OnDeleteTimeline i \<notin> set post \<and> DeleteTimeline i \<notin> set post"
        using mem Cons.prems(2) by (rule Cons.IH)
      then show ?thesis using None
        by (simp add: deleteNewTimelines_Cons del: deleteNewTimelines.simps(2))
    next
      case (Some t)
      have pres: "(R(a := None)) i \<noteq> None" using False Cons.prems by simp
      have "\<exists>pre post. snd (deleteNewTimelines True ids (R(a := None))) =
         pre @ [OnDeleteTimeline i, DeleteTimeline i] @ post \<and>
       OnDeleteTimeline i \<notin> set pre \<and> DeleteTimeline i \<notin> set pre \<and>
       OnDeleteTimeline i \<notin> set post \<and> DeleteTimeline i \<notin> set post"
        using mem pres by (rule Cons.IH)
      then obtain pre post where
        s: "snd (deleteNewTimelines True ids (R(a := None))) =
              pre @ [OnDeleteTimeline i, DeleteTimeline i] @ post"
        and n: "OnDeleteTimeline i \<notin> set pre" "DeleteTimeline i \<notin> set pre"
               "OnDeleteTimeline i \<notin> set post" "DeleteTimeline i \<notin> set post"
        by blast
      have "snd (deleteNewTimelines True (a # ids) R) =
          (OnDeleteTimeline a # DeleteTimeline a # pre) @
            [OnDeleteTimeline i, DeleteTimeline i] @ post"
        using Some s by (simp add: deleteNewTimelines_Cons del: deleteNewTimelines.simps(2))
      moreover have "OnDeleteTimeline i \<notin> set (OnDeleteTimeline a # DeleteTimeline a # pre)"
        "DeleteTimeline i \<notin> set (OnDeleteTimeline a # DeleteTimeline a # pre)"
        using n False by auto
      ultimately show ?thesis using n by blast
    qed
  qed
qed

subsection \<open>restoreCaptured\<close>

lemma restoreTimeline_returned:
  "ld (tl_chess t) (st_fen st) = LoadReturned ok c' \<Longrightarrow>
     restoreTimeline ld i st t =
       (None,
        t\<lparr>tl_chess := c', tl_moveHistory := st_moveHistory st,
          tl_snapshots := deepCloneSnapshots (st_snapshots st)\<rparr>,
        [LoadFen i (st_fen st) ok, SetMoveHistory i, SetSnapshots i])"
  by (simp add: restoreTimeline_def deepCloneMoveHistory_id)

lemma restoreTimeline_threw:
  "ld (tl_chess t) (st_fen st) = LoadThrew c' \<Longrightarrow>
     restoreTimeline ld i st t =
       (Some ChessLoadError, t\<lparr>tl_chess := c'\<rparr>, [LoadFenThrew i (st_fen st)])"
  by (simp add: restoreTimeline_def)

lemma restoreCaptured_skip:
  "R i = None \<Longrightarrow> restoreCaptured ld ((i, st) # rest) R = restoreCaptured ld rest R"
  by simp

lemma restoreCaptured_stop:
  "R i = Some t \<Longrightarrow> ld (tl_chess t) (st_fen st) = LoadThrew c' \<Longrightarrow>
     restoreCaptured ld ((i, st) # rest) R =
       (Some ChessLoadError, R(i \<mapsto> t\<lparr>tl_chess := c'\<rparr>), [LoadFenThrew i (st_fen st)])"
  by (simp add: restoreTimeline_threw)

lemma restoreCaptured_go:
  "R i = Some t \<Longrightarrow> ld (tl_chess t) (st_fen st) = LoadReturned ok c' \<Longrightarrow>
     restoreCaptured ld ((i, st) # rest) R =
       (fst (restoreCaptured ld rest
               (R(i \<mapsto> t\<lparr>tl_chess := c', tl_moveHistory := st_moveHistory st,
                          tl_snapshots := deepCloneSnapshots (st_snapshots st)\<rparr>))),
        fst (snd (restoreCaptured ld rest
               (R(i \<mapsto> t\<lparr>tl_chess := c', tl_moveHistory := st_moveHistory st,
                          tl_snapshots := deepCloneSnapshots (st_snapshots st)\<rparr>)))),
        LoadFen i (st_fen st) ok # SetMoveHistory i # SetSnapshots i #
        snd (snd (restoreCaptured ld rest
               (R(i \<mapsto> t\<lparr>tl_chess := c', tl_moveHistory := st_moveHistory st,
                          tl_snapshots := deepCloneSnapshots (st_snapshots st)\<rparr>)))))"
  by (simp add: restoreTimeline_returned split: prod.splits)

text \<open>
  Every property of the loop is proved the same way: by induction on the captured states,
  with the registry arbitrary, and by the three cases of one pass.
\<close>

lemma restoreCaptured_induct [consumes 0, case_names Nil Skip Stop Go]:
  assumes nil: "\<And>R. P [] R"
    and skip: "\<And>i st rest R. R i = None \<Longrightarrow> P rest R \<Longrightarrow> P ((i, st) # rest) R"
    and stop: "\<And>i st rest R t c'. R i = Some t \<Longrightarrow> ld (tl_chess t) (st_fen st) = LoadThrew c' \<Longrightarrow>
      P ((i, st) # rest) R"
    and go: "\<And>i st rest R t ok c'. R i = Some t \<Longrightarrow>
      ld (tl_chess t) (st_fen st) = LoadReturned ok c' \<Longrightarrow>
      P rest (R(i \<mapsto> t\<lparr>tl_chess := c', tl_moveHistory := st_moveHistory st,
                        tl_snapshots := deepCloneSnapshots (st_snapshots st)\<rparr>)) \<Longrightarrow>
      P ((i, st) # rest) R"
  shows "P caps R"
proof (induction caps arbitrary: R)
  case Nil
  show ?case by (rule nil)
next
  case (Cons a caps)
  obtain i st where a: "a = (i, st)" by (cases a)
  show ?case
  proof (cases "R i")
    case None
    have "P caps R" by (rule Cons.IH)
    with None show ?thesis unfolding a by (rule skip)
  next
    case (Some t)
    show ?thesis
    proof (cases "ld (tl_chess t) (st_fen st)")
      case (LoadThrew c')
      with Some show ?thesis unfolding a by (rule stop)
    next
      case (LoadReturned ok c')
      have "P caps (R(i \<mapsto> t\<lparr>tl_chess := c', tl_moveHistory := st_moveHistory st,
                        tl_snapshots := deepCloneSnapshots (st_snapshots st)\<rparr>))"
        by (rule Cons.IH)
      with Some LoadReturned show ?thesis unfolding a by (rule go)
    qed
  qed
qed

lemma restoreCaptured_effects:
  "list_all isRestoration (snd (snd (restoreCaptured ld caps R)))"
proof (induction caps R rule: restoreCaptured_induct [where ld = ld])
  case (Nil R)
  show ?case by simp
next
  case (Skip i st rest R)
  then show ?case by (simp only: restoreCaptured_skip)
next
  case (Stop i st rest R t c')
  then show ?case by (simp add: restoreCaptured_stop del: restoreCaptured.simps)
next
  case (Go i st rest R t ok c')
  let ?R' = "R(i \<mapsto> t\<lparr>tl_chess := c', tl_moveHistory := st_moveHistory st,
                        tl_snapshots := deepCloneSnapshots (st_snapshots st)\<rparr>)"
  have "list_all isRestoration (snd (snd (restoreCaptured ld rest ?R')))" by (rule Go.IH)
  with Go.hyps show ?case by (simp add: restoreCaptured_go del: restoreCaptured.simps)
qed

lemma restoreCaptured_raised:
  "fst (restoreCaptured ld caps R) = None \<or>
   fst (restoreCaptured ld caps R) = Some ChessLoadError"
proof (induction caps R rule: restoreCaptured_induct [where ld = ld])
  case (Nil R)
  show ?case by simp
next
  case (Skip i st rest R)
  then show ?case by (simp only: restoreCaptured_skip)
next
  case (Stop i st rest R t c')
  then show ?case by (simp add: restoreCaptured_stop del: restoreCaptured.simps)
next
  case (Go i st rest R t ok c')
  let ?R' = "R(i \<mapsto> t\<lparr>tl_chess := c', tl_moveHistory := st_moveHistory st,
                        tl_snapshots := deepCloneSnapshots (st_snapshots st)\<rparr>)"
  have "fst (restoreCaptured ld rest ?R') = None \<or>
        fst (restoreCaptured ld rest ?R') = Some ChessLoadError" by (rule Go.IH)
  with Go.hyps show ?case by (simp add: restoreCaptured_go del: restoreCaptured.simps)
qed

lemma restoreCaptured_neverThrows:
  "neverThrows ld \<Longrightarrow> fst (restoreCaptured ld caps R) = None"
proof (induction caps R rule: restoreCaptured_induct [where ld = ld])
  case (Nil R)
  show ?case by simp
next
  case (Skip i st rest R)
  then show ?case by (simp only: restoreCaptured_skip)
next
  case (Stop i st rest R t c')
  from Stop.prems have "returned (ld (tl_chess t) (st_fen st))" by (simp add: neverThrows_def)
  with Stop.hyps show ?case by simp
next
  case (Go i st rest R t ok c')
  let ?R' = "R(i \<mapsto> t\<lparr>tl_chess := c', tl_moveHistory := st_moveHistory st,
                        tl_snapshots := deepCloneSnapshots (st_snapshots st)\<rparr>)"
  have "fst (restoreCaptured ld rest ?R') = None" using Go.prems by (rule Go.IH)
  with Go.hyps show ?case by (simp add: restoreCaptured_go del: restoreCaptured.simps)
qed

lemma restoreCaptured_absent:
  "R k = None \<Longrightarrow> fst (snd (restoreCaptured ld caps R)) k = None"
proof (induction caps R rule: restoreCaptured_induct [where ld = ld])
  case (Nil R)
  then show ?case by simp
next
  case (Skip i st rest R)
  then show ?case by (simp only: restoreCaptured_skip)
next
  case (Stop i st rest R t c')
  have "i \<noteq> k" using Stop.hyps(1) Stop.prems by auto
  with Stop.hyps Stop.prems show ?case
    by (simp add: restoreCaptured_stop del: restoreCaptured.simps)
next
  case (Go i st rest R t ok c')
  let ?R' = "R(i \<mapsto> t\<lparr>tl_chess := c', tl_moveHistory := st_moveHistory st,
                        tl_snapshots := deepCloneSnapshots (st_snapshots st)\<rparr>)"
  have "i \<noteq> k" using Go.hyps(1) Go.prems by auto
  then have "?R' k = None" using Go.prems by simp
  then have "fst (snd (restoreCaptured ld rest ?R')) k = None" by (rule Go.IH)
  with Go.hyps show ?case by (simp add: restoreCaptured_go del: restoreCaptured.simps)
qed

lemma restoreCaptured_other:
  "k \<notin> fst ` set caps \<Longrightarrow> fst (snd (restoreCaptured ld caps R)) k = R k"
proof (induction caps R rule: restoreCaptured_induct [where ld = ld])
  case (Nil R)
  then show ?case by simp
next
  case (Skip i st rest R)
  then show ?case by (simp add: restoreCaptured_skip del: restoreCaptured.simps)
next
  case (Stop i st rest R t c')
  then show ?case by (simp add: restoreCaptured_stop del: restoreCaptured.simps)
next
  case (Go i st rest R t ok c')
  let ?R' = "R(i \<mapsto> t\<lparr>tl_chess := c', tl_moveHistory := st_moveHistory st,
                        tl_snapshots := deepCloneSnapshots (st_snapshots st)\<rparr>)"
  have ne: "k \<noteq> i" and nr: "k \<notin> fst ` set rest" using Go.prems by auto
  from nr have "fst (snd (restoreCaptured ld rest ?R')) k = ?R' k" by (rule Go.IH)
  with Go.hyps ne show ?case by (simp add: restoreCaptured_go del: restoreCaptured.simps)
qed

lemma loadsOk_iff:
  "loadsOk ld caps R \<longleftrightarrow>
     (\<forall>j sj tj. (j, sj) \<in> set caps \<longrightarrow> R j = Some tj \<longrightarrow>
        returned (ld (tl_chess tj) (st_fen sj)))"
  by (auto simp: loadsOk_def list_all_iff split: option.splits)

lemma loadsOk_rest:
  assumes "loadsOk ld ((i, st) # rest) R" and "i \<notin> fst ` set rest"
  shows "loadsOk ld rest (R(i \<mapsto> t'))"
  unfolding loadsOk_iff
proof (intro allI impI)
  fix j sj tj
  assume m: "(j, sj) \<in> set rest" and r: "(R(i \<mapsto> t')) j = Some tj"
  from m assms(2) have "j \<noteq> i" by force
  with r have "R j = Some tj" by simp
  with m assms(1) show "returned (ld (tl_chess tj) (st_fen sj))"
    unfolding loadsOk_iff by auto
qed

lemma restoreCaptured_returns:
  "distinct (map fst caps) \<Longrightarrow> loadsOk ld caps R \<Longrightarrow> fst (restoreCaptured ld caps R) = None"
proof (induction caps R rule: restoreCaptured_induct [where ld = ld])
  case (Nil R)
  show ?case by simp
next
  case (Skip i st rest R)
  have "loadsOk ld rest R" using Skip.prems(2) by (auto simp: loadsOk_iff)
  with Skip show ?case by (simp add: restoreCaptured_skip del: restoreCaptured.simps)
next
  case (Stop i st rest R t c')
  have "returned (ld (tl_chess t) (st_fen st))"
    using Stop.prems(2) Stop.hyps(1) by (auto simp: loadsOk_iff)
  with Stop.hyps show ?case by simp
next
  case (Go i st rest R t ok c')
  have d: "distinct (map fst rest)" and n: "i \<notin> fst ` set rest" using Go.prems(1) by auto
  let ?R' = "R(i \<mapsto> t\<lparr>tl_chess := c', tl_moveHistory := st_moveHistory st,
                        tl_snapshots := deepCloneSnapshots (st_snapshots st)\<rparr>)"
  have "loadsOk ld rest ?R'" using Go.prems(2) n by (rule loadsOk_rest)
  with d have "fst (restoreCaptured ld rest ?R') = None" by (rule Go.IH)
  with Go.hyps show ?case by (simp add: restoreCaptured_go del: restoreCaptured.simps)
qed

lemma restoreCaptured_at:
  "distinct (map fst caps) \<Longrightarrow> loadsOk ld caps R \<Longrightarrow> (k, sk) \<in> set caps \<Longrightarrow>
   R k = Some tk \<Longrightarrow>
     \<exists>ok c'. ld (tl_chess tk) (st_fen sk) = LoadReturned ok c' \<and>
       fst (snd (restoreCaptured ld caps R)) k =
         Some (tk\<lparr>tl_chess := c', tl_moveHistory := st_moveHistory sk,
                  tl_snapshots := deepCloneSnapshots (st_snapshots sk)\<rparr>) \<and>
       LoadFen k (st_fen sk) ok \<in> set (snd (snd (restoreCaptured ld caps R)))"
proof (induction caps R rule: restoreCaptured_induct [where ld = ld])
  case (Nil R)
  then show ?case by simp
next
  case (Skip i st rest R)
  have ne: "i \<noteq> k" using Skip.hyps Skip.prems(4) by auto
  have "loadsOk ld rest R" using Skip.prems(2) by (auto simp: loadsOk_iff)
  moreover have "distinct (map fst rest)" "(k, sk) \<in> set rest"
    using Skip.prems(1,3) ne by auto
  ultimately show ?case
    using Skip.IH Skip.hyps Skip.prems(4)
    by (simp add: restoreCaptured_skip del: restoreCaptured.simps)
next
  case (Stop i st rest R t c')
  have "returned (ld (tl_chess t) (st_fen st))"
    using Stop.prems(2) Stop.hyps(1) by (auto simp: loadsOk_iff)
  with Stop.hyps show ?case by simp
next
  case (Go i st rest R t ok c')
  let ?t' = "t\<lparr>tl_chess := c', tl_moveHistory := st_moveHistory st,
                        tl_snapshots := deepCloneSnapshots (st_snapshots st)\<rparr>"
  have d: "distinct (map fst rest)" and n: "i \<notin> fst ` set rest" using Go.prems(1) by auto
  have ok': "loadsOk ld rest (R(i \<mapsto> ?t'))" using Go.prems(2) n by (rule loadsOk_rest)
  show ?case
  proof (cases "i = k")
    case True
    then have "sk = st" using Go.prems(1,3) by (auto simp: image_iff)
    moreover have "tk = t" using True Go.hyps(1) Go.prems(4) by simp
    moreover have "fst (snd (restoreCaptured ld rest (R(k \<mapsto> ?t')))) k = (R(k \<mapsto> ?t')) k"
      using n True by (simp add: restoreCaptured_other)
    ultimately show ?thesis using True Go.hyps
      by (simp add: restoreCaptured_go del: restoreCaptured.simps)
  next
    case False
    then have m: "(k, sk) \<in> set rest" using Go.prems(3) by auto
    have r: "(R(i \<mapsto> ?t')) k = Some tk" using False Go.prems(4) by simp
    have "\<exists>ok c'. ld (tl_chess tk) (st_fen sk) = LoadReturned ok c' \<and>
       fst (snd (restoreCaptured ld rest (R(i \<mapsto> ?t')))) k =
         Some (tk\<lparr>tl_chess := c', tl_moveHistory := st_moveHistory sk,
                  tl_snapshots := deepCloneSnapshots (st_snapshots sk)\<rparr>) \<and>
       LoadFen k (st_fen sk) ok \<in> set (snd (snd (restoreCaptured ld rest (R(i \<mapsto> ?t')))))"
      using d ok' m r by (rule Go.IH)
    then show ?thesis using Go.hyps
      by (auto simp add: restoreCaptured_go simp del: restoreCaptured.simps)
  qed
qed

subsection \<open>What a run of capture calls leaves in the transaction\<close>

lemma applyCall_flags:
  "applyCall f tx c = Inr tx' \<Longrightarrow>
     \<not> committed tx \<and> \<not> rolledBack tx \<and> \<not> committed tx' \<and> \<not> rolledBack tx'"
  by (cases c) (auto simp: captureTimeline_def captureNewTimeline_def split: if_splits)

lemma applyCalls_open:
  "applyCalls f tx cs = Inr tx' \<Longrightarrow> \<not> committed tx \<Longrightarrow> \<not> rolledBack tx \<Longrightarrow>
     \<not> committed tx' \<and> \<not> rolledBack tx'"
proof (induction cs arbitrary: tx)
  case Nil
  then show ?case by simp
next
  case (Cons c cs)
  then obtain tx1 where s: "applyCall f tx c = Inr tx1" and r: "applyCalls f tx1 cs = Inr tx'"
    by (auto split: sum.splits)
  from applyCall_flags [OF s] have "\<not> committed tx1" "\<not> rolledBack tx1" by simp_all
  with r show ?case by (rule Cons.IH)
qed

lemma applyCall_new:
  "applyCall f tx c = Inr tx' \<Longrightarrow> newTimelineIds tx' = newTimelineIds tx @ recordedNew [c]"
  by (cases c) (auto simp: captureTimeline_def captureNewTimeline_def split: if_splits)

lemma applyCalls_new:
  "applyCalls f tx cs = Inr tx' \<Longrightarrow> newTimelineIds tx' = newTimelineIds tx @ recordedNew cs"
proof (induction cs arbitrary: tx)
  case Nil
  then show ?case by simp
next
  case (Cons c cs)
  then obtain tx1 where s: "applyCall f tx c = Inr tx1" and r: "applyCalls f tx1 cs = Inr tx'"
    by (auto split: sum.splits)
  have "newTimelineIds tx' = newTimelineIds tx1 @ recordedNew cs" using r by (rule Cons.IH)
  then show ?case using applyCall_new [OF s] by (cases c) simp_all
qed

lemma applyCall_distinct:
  "applyCall f tx c = Inr tx' \<Longrightarrow> distinct (map fst (capturedStates tx)) \<Longrightarrow>
     distinct (map fst (capturedStates tx'))"
  by (cases c)
    (auto simp: captureTimeline_def captureNewTimeline_def map_of_eq_None_iff split: if_splits)

lemma applyCalls_distinct:
  "applyCalls f tx cs = Inr tx' \<Longrightarrow> distinct (map fst (capturedStates tx)) \<Longrightarrow>
     distinct (map fst (capturedStates tx'))"
proof (induction cs arbitrary: tx)
  case Nil
  then show ?case by simp
next
  case (Cons c cs)
  then obtain tx1 where s: "applyCall f tx c = Inr tx1" and r: "applyCalls f tx1 cs = Inr tx'"
    by (auto split: sum.splits)
  have "distinct (map fst (capturedStates tx1))"
    using s Cons.prems(2) by (rule applyCall_distinct)
  with r show ?case by (rule Cons.IH)
qed

lemma applyCall_lookup:
  "applyCall f tx c = Inr tx' \<Longrightarrow>
     map_of (capturedStates tx') i =
       (case map_of (capturedStates tx) i of
          Some s \<Rightarrow> Some s
        | None \<Rightarrow> map_option (\<lambda>(t, l). capturedState f t l) (firstCaptured [c] i))"
  by (cases c)
    (auto simp: captureTimeline_def captureNewTimeline_def map_add_def
      split: if_splits option.splits)

lemma applyCalls_lookup:
  "applyCalls f tx cs = Inr tx' \<Longrightarrow>
     map_of (capturedStates tx') i =
       (case map_of (capturedStates tx) i of
          Some s \<Rightarrow> Some s
        | None \<Rightarrow> map_option (\<lambda>(t, l). capturedState f t l) (firstCaptured cs i))"
proof (induction cs arbitrary: tx)
  case Nil
  then show ?case by (simp split: option.splits)
next
  case (Cons c cs)
  then obtain tx1 where s: "applyCall f tx c = Inr tx1" and r: "applyCalls f tx1 cs = Inr tx'"
    by (auto split: sum.splits)
  have "map_of (capturedStates tx') i =
       (case map_of (capturedStates tx1) i of
          Some s \<Rightarrow> Some s
        | None \<Rightarrow> map_option (\<lambda>(t, l). capturedState f t l) (firstCaptured cs i))"
    using r by (rule Cons.IH)
  then show ?case using applyCall_lookup [OF s, of i]
    by (cases c) (auto split: option.splits if_splits)
qed

lemma applyCalls_new_lookup:
  assumes "applyCalls f newTransaction cs = Inr tx"
  shows "map_of (capturedStates tx) i =
     map_option (\<lambda>(t, l). capturedState f t l) (firstCaptured cs i)"
  using applyCalls_lookup [OF assms, of i] by (simp add: newTransaction_def)

lemma applyCalls_new_inv:
  assumes "applyCalls f newTransaction cs = Inr tx"
  shows "\<not> committed tx" "\<not> rolledBack tx" "distinct (map fst (capturedStates tx))"
    "newTimelineIds tx = recordedNew cs"
  using applyCalls_open [OF assms] applyCalls_distinct [OF assms] applyCalls_new [OF assms]
  by (simp_all add: newTransaction_def)

lemma applyCalls_new_member:
  assumes "applyCalls f newTransaction cs = Inr tx"
  shows "(i, s) \<in> set (capturedStates tx) \<longleftrightarrow>
     (\<exists>t l. firstCaptured cs i = Some (t, l) \<and> s = capturedState f t l)"
proof -
  have "(i, s) \<in> set (capturedStates tx) \<longleftrightarrow> map_of (capturedStates tx) i = Some s"
    using applyCalls_new_inv(3) [OF assms] by simp
  then show ?thesis using applyCalls_new_lookup [OF assms, of i] by auto
qed

subsection \<open>rollback on an open transaction\<close>

lemma rollback_open:
  "\<not> committed tx \<Longrightarrow> \<not> rolledBack tx \<Longrightarrow>
     rollback ld tx R cb =
       (fst (restoreCaptured ld (capturedStates tx)
               (fst (deleteNewTimelines cb (newTimelineIds tx) R))),
        (if fst (restoreCaptured ld (capturedStates tx)
                   (fst (deleteNewTimelines cb (newTimelineIds tx) R))) = None
         then tx\<lparr>rolledBack := True\<rparr> else tx),
        fst (snd (restoreCaptured ld (capturedStates tx)
                    (fst (deleteNewTimelines cb (newTimelineIds tx) R)))),
        snd (deleteNewTimelines cb (newTimelineIds tx) R) @
        snd (snd (restoreCaptured ld (capturedStates tx)
                    (fst (deleteNewTimelines cb (newTimelineIds tx) R)))))"
  by (simp add: rollback_def split: prod.splits option.splits)

lemma deleteNewTimelines_fun:
  "fst (deleteNewTimelines cb ids R) = (\<lambda>j. if j \<in> set ids then None else R j)"
  by (rule ext) (rule deleteNewTimelines_registry)

lemma loadsReturn_step2:
  "loadsReturn ld tx R =
     loadsOk ld (capturedStates tx) (fst (deleteNewTimelines cb (newTimelineIds tx) R))"
  by (simp add: loadsReturn_def deleteNewTimelines_fun)

lemma count_list_restoration:
  "list_all isRestoration es \<Longrightarrow>
     count_list es (OnDeleteTimeline i) = 0 \<and> count_list es (DeleteTimeline i) = 0"
  by (induction es) auto

subsection \<open>The concrete values\<close>

lemma sampleCalls_run: "applyCalls sampleFen newTransaction sampleCalls = Inr sampleTx"
  by (simp add: sampleCalls_def sampleTx_def newTransaction_def captureTimeline_def
      captureNewTimeline_def sourceAtCapture_def sourceMutated_def targetAtCapture_def)

lemma sampleBoard_8x8: "is8x8 sampleBoard"
  by (simp add: is8x8_def sampleBoard_def list_all_iff)

lemma sample_snapshots:
  "deepCloneSnapshots (tl_snapshots sourceAtCapture) = tl_snapshots sourceAtCapture"
  "deepCloneSnapshots (tl_snapshots targetAtCapture) = tl_snapshots targetAtCapture"
  by (rule deepCloneSnapshots_id, simp add: sourceAtCapture_def targetAtCapture_def sampleBoard_8x8)+

lemma sampleLoad_neverThrows: "neverThrows sampleLoad"
  by (simp add: neverThrows_def sampleLoad_def)

subsection \<open>The store\<close>

lemma refs_simps [simp]:
  "refs [] = []" "refs (Some a # xs) = a # refs xs" "refs (None # xs) = refs xs"
  "refs (xs @ ys) = refs xs @ refs ys"
  by (simp_all add: refs_def)

lemma set_refs: "a \<in> set (refs xs) \<longleftrightarrow> Some a \<in> set xs"
  by (induction xs) (auto simp: refs_def split: option.splits)

lemma rowObject_iff:
  "rowObject s row \<longleftrightarrow>
     row < length (arrays s) \<and> (\<forall>p. Some p \<in> set (arrayAt s row) \<longrightarrow> p < length (pieces s))"
  by (auto simp: rowObject_def list_all_iff set_refs)

lemma boardObject_iff:
  "boardObject s b \<longleftrightarrow>
     b < length (arrays s) \<and>
     (\<forall>e \<in> set (arrayAt s b). \<exists>row. e = Some row \<and> rowObject s row)"
  by (auto simp: boardObject_def list_all_iff split: option.splits)

lemma later_refl: "later s s"
  by (simp add: later_def)

lemma later_trans: "later s s1 \<Longrightarrow> later s1 s2 \<Longrightarrow> later s s2"
  unfolding later_def by auto

lemma pieceAt_later: "later s s' \<Longrightarrow> p < length (pieces s) \<Longrightarrow> pieceAt s' p = pieceAt s p"
  unfolding later_def pieceAt_def by (auto simp: nth_append)

lemma newArray_effect:
  assumes "newArray s = (a, s')"
  shows "a = length (arrays s)" "length (arrays s') = Suc (length (arrays s))"
    "pieces s' = pieces s" "arrayAt s' x = arrayAt s x"
  using assms by (auto simp: newArray_def arrayAt_def nth_append)

lemma newPiece_effect:
  assumes "newPiece p s = (a, s')"
  shows "a = length (pieces s)" "pieces s' = pieces s @ [p]" "arrays s' = arrays s"
    "arrayAt s' x = arrayAt s x"
  using assms by (auto simp: newPiece_def arrayAt_def)

lemma setElement_append:
  assumes "a < length (arrays s)" and "i = length (arrayAt s a)"
  shows "arrayAt (setElement s a i v) a = arrayAt s a @ [v]"
    "x \<noteq> a \<Longrightarrow> arrayAt (setElement s a i v) x = arrayAt s x"
    "length (arrays (setElement s a i v)) = length (arrays s)"
    "pieces (setElement s a i v) = pieces s"
  using assms by (auto simp: setElement_def arrayAt_def)

lemma rowValue_later:
  assumes "later s s'" and "rowObject s row" and "arrayAt s' row = arrayAt s row"
  shows "rowValue s' row = rowValue s row" "rowObject s' row"
proof -
  have ok: "\<And>p. Some p \<in> set (arrayAt s row) \<Longrightarrow> p < length (pieces s)"
    and r: "row < length (arrays s)"
    using assms(2) by (auto simp: rowObject_iff)
  show "rowValue s' row = rowValue s row"
    unfolding rowValue_def assms(3)
    by (rule map_cong) (auto split: option.splits simp: pieceAt_later [OF assms(1)] dest: ok)
  show "rowObject s' row"
    unfolding rowObject_iff assms(3)
  proof (intro conjI allI impI)
    show "row < length (arrays s')" using r assms(1) by (simp add: later_def)
  next
    fix p assume "Some p \<in> set (arrayAt s row)"
    then have "p < length (pieces s)" by (rule ok)
    then show "p < length (pieces s')" using assms(1) by (auto simp: later_def)
  qed
qed

lemma board_later:
  assumes "later s s'" and "boardObject s b" and "arrayAt s' b = arrayAt s b"
    and "\<And>row. Some row \<in> set (arrayAt s b) \<Longrightarrow> arrayAt s' row = arrayAt s row"
  shows "boardValue s' b = boardValue s b" "boardObject s' b"
proof -
  have rows: "\<And>e. e \<in> set (arrayAt s b) \<Longrightarrow> \<exists>row. e = Some row \<and> rowObject s row"
    and b: "b < length (arrays s)"
    using assms(2) by (auto simp: boardObject_iff)
  show "boardValue s' b = boardValue s b"
    unfolding boardValue_def assms(3)
  proof (rule map_cong)
    fix e assume e: "e \<in> set (arrayAt s b)"
    then obtain row where r: "e = Some row" "rowObject s row" using rows by blast
    then show "(case e of None \<Rightarrow> [] | Some row \<Rightarrow> rowValue s' row) =
        (case e of None \<Rightarrow> [] | Some row \<Rightarrow> rowValue s row)"
      using rowValue_later(1) [OF assms(1) r(2)] assms(4) e by simp
  qed simp
  show "boardObject s' b"
    unfolding boardObject_iff
  proof (intro conjI ballI)
    show "b < length (arrays s')" using b assms(1) by (simp add: later_def)
  next
    fix e assume "e \<in> set (arrayAt s' b)"
    then have e: "e \<in> set (arrayAt s b)" by (simp add: assms(3))
    then obtain row where r: "e = Some row" "rowObject s row" using rows by blast
    then show "\<exists>row. e = Some row \<and> rowObject s' row"
      using rowValue_later(2) [OF assms(1) r(2)] assms(4) e by simp
  qed
qed

lemma element_mem: "element s a i = Some x \<Longrightarrow> Some x \<in> set (arrayAt s a)"
  by (auto simp: element_def split: if_splits) (metis nth_mem)

lemma storedCell_same:
  assumes "arrayAt s' b = arrayAt s b"
    and "\<And>row. Some row \<in> set (arrayAt s b) \<Longrightarrow> arrayAt s' row = arrayAt s row"
  shows "storedCell s' b r c = storedCell s b r c"
proof -
  have e: "element s' b r = element s b r" by (simp add: element_def assms(1))
  show ?thesis
  proof (cases "element s b r")
    case None
    then show ?thesis using e by (simp add: storedCell_def)
  next
    case (Some row)
    then have "arrayAt s' row = arrayAt s row" using assms(2) element_mem by blast
    then show ?thesis using e Some by (simp add: storedCell_def element_def)
  qed
qed

lemma storedCell_value:
  assumes "boardObject s b"
  shows "(case storedCell s b r c of None \<Rightarrow> None | Some a \<Rightarrow> pieceAt s a) =
     boardCell (boardValue s b) r c"
proof (cases "r < length (arrayAt s b)")
  case False
  then show ?thesis by (simp add: storedCell_def element_def boardCell_def boardValue_def)
next
  case True
  then have "arrayAt s b ! r \<in> set (arrayAt s b)" by simp
  then obtain row where row: "arrayAt s b ! r = Some row"
    using assms by (auto simp: boardObject_iff)
  show ?thesis using True row
    by (simp add: storedCell_def element_def boardCell_def boardValue_def rowValue_def)
qed

lemma storedCell_valid:
  assumes "boardObject s b" and "storedCell s b r c = Some a"
  shows "a < length (pieces s)"
proof -
  from assms(2) obtain row where e: "element s b r = Some row" "element s row c = Some a"
    by (auto simp: storedCell_def split: option.splits)
  then have m: "Some row \<in> set (arrayAt s b)" "Some a \<in> set (arrayAt s row)"
    by (auto dest: element_mem)
  from m(1) have "rowObject s row" using assms(1) by (auto simp: boardObject_iff)
  then show ?thesis using m(2) by (simp add: rowObject_iff)
qed

subsection \<open>The two iterations of deepCloneBoard\<close>

lemma cloneCell_step:
  assumes b: "boardObject s board" and ro: "rowObject s row"
    and c: "c = length (arrayAt s row)"
  shows "later s (cloneCell board r row c s)"
    "length (arrays (cloneCell board r row c s)) = length (arrays s)"
    "\<And>x. x \<noteq> row \<Longrightarrow> arrayAt (cloneCell board r row c s) x = arrayAt s x"
    "rowObject (cloneCell board r row c s) row"
    "rowValue (cloneCell board r row c s) row =
       rowValue s row @ [boardCell (boardValue s board) r c]"
    "length (arrayAt (cloneCell board r row c s) row) = Suc c"
    "\<And>p. Some p \<in> set (arrayAt (cloneCell board r row c s) row) \<Longrightarrow>
       Some p \<in> set (arrayAt s row) \<or> length (pieces s) \<le> p"
proof -
  have r: "row < length (arrays s)" using ro by (simp add: rowObject_iff)
  have ok: "\<And>p. Some p \<in> set (arrayAt s row) \<Longrightarrow> p < length (pieces s)"
    using ro by (simp add: rowObject_iff)
  note v = storedCell_value [OF b, of r c]
  let ?s' = "cloneCell board r row c s"
  have all: "later s ?s' \<and> length (arrays ?s') = length (arrays s) \<and>
      (\<forall>x. x \<noteq> row \<longrightarrow> arrayAt ?s' x = arrayAt s x) \<and> rowObject ?s' row \<and>
      rowValue ?s' row = rowValue s row @ [boardCell (boardValue s board) r c] \<and>
      length (arrayAt ?s' row) = Suc c \<and>
      (\<forall>p. Some p \<in> set (arrayAt ?s' row) \<longrightarrow>
         Some p \<in> set (arrayAt s row) \<or> length (pieces s) \<le> p)"
  proof (cases "storedCell s board r c")
    case None
    then have s': "?s' = setElement s row c None" by (simp add: cloneCell_def)
    have cell: "boardCell (boardValue s board) r c = None" using v None by simp
    show ?thesis
      unfolding s' cell using setElement_append [OF r c, where v = None] ok r c
      by (auto simp: later_def rowObject_iff rowValue_def pieceAt_def split: option.splits)
  next
    case (Some a)
    then have a: "a < length (pieces s)" using storedCell_valid [OF b] by blast
    then obtain p where p: "pieceAt s a = Some p" by (simp add: pieceAt_def)
    have cell: "boardCell (boardValue s board) r c = Some p" using v Some p by simp
    define s1 where "s1 = s\<lparr>pieces := pieces s @ [p]\<rparr>"
    have np: "newPiece \<lparr>pc_type = pc_type p, pc_color = pc_color p\<rparr> s = (length (pieces s), s1)"
      by (simp add: newPiece_def s1_def)
    have s': "?s' = setElement s1 row c (Some (length (pieces s)))"
      using Some p np by (simp add: cloneCell_def)
    have a1: "\<And>x. arrayAt s1 x = arrayAt s x" by (simp add: s1_def arrayAt_def)
    have r1: "row < length (arrays s1)" using r by (simp add: s1_def)
    have c1: "c = length (arrayAt s1 row)" using c a1 by simp
    have old: "map (\<lambda>e. case e of None \<Rightarrow> None | Some a \<Rightarrow> pieceAt s1 a) (arrayAt s row) =
        map (\<lambda>e. case e of None \<Rightarrow> None | Some a \<Rightarrow> pieceAt s a) (arrayAt s row)"
      by (rule map_cong) (auto split: option.splits simp: pieceAt_def s1_def nth_append dest: ok)
    have new: "pieceAt s1 (length (pieces s)) = Some p" by (simp add: pieceAt_def s1_def)
    show ?thesis
      unfolding s' cell using setElement_append [OF r1 c1, where v = "Some (length (pieces s))"] a1 r c old new
      by (auto simp: later_def rowObject_iff rowValue_def pieceAt_def s1_def nth_append split: option.splits dest!: ok)
  qed
  from all show "later s ?s'" "length (arrays ?s') = length (arrays s)"
    "\<And>x. x \<noteq> row \<Longrightarrow> arrayAt ?s' x = arrayAt s x"
    "rowObject ?s' row"
    "rowValue ?s' row = rowValue s row @ [boardCell (boardValue s board) r c]"
    "length (arrayAt ?s' row) = Suc c"
    "\<And>p. Some p \<in> set (arrayAt ?s' row) \<Longrightarrow>
       Some p \<in> set (arrayAt s row) \<or> length (pieces s) \<le> p"
    by blast+
qed

lemma cloneCells_loop:
  assumes b: "boardObject s0 board" and r: "row < length (arrays s0)"
    and e: "arrayAt s0 row = []" and nb: "row \<noteq> board"
    and nr: "Some row \<notin> set (arrayAt s0 board)"
  shows "later s0 (fold (cloneCell board r row) [0..<n] s0) \<and>
    length (arrays (fold (cloneCell board r row) [0..<n] s0)) = length (arrays s0) \<and>
    (\<forall>x. x \<noteq> row \<longrightarrow> arrayAt (fold (cloneCell board r row) [0..<n] s0) x = arrayAt s0 x) \<and>
    rowObject (fold (cloneCell board r row) [0..<n] s0) row \<and>
    rowValue (fold (cloneCell board r row) [0..<n] s0) row =
      map (boardCell (boardValue s0 board) r) [0..<n] \<and>
    length (arrayAt (fold (cloneCell board r row) [0..<n] s0) row) = n \<and>
    (\<forall>p. Some p \<in> set (arrayAt (fold (cloneCell board r row) [0..<n] s0) row) \<longrightarrow>
       length (pieces s0) \<le> p)"
proof (induction n)
  case 0
  show ?case using r e by (simp add: later_refl rowObject_def rowValue_def)
next
  case (Suc n)
  define s where "s = fold (cloneCell board r row) [0..<n] s0"
  have step: "fold (cloneCell board r row) [0..<Suc n] s0 = cloneCell board r row n s"
    by (simp add: s_def)
  from Suc.IH have l: "later s0 s" and len: "length (arrays s) = length (arrays s0)"
    and same: "\<And>x. x \<noteq> row \<Longrightarrow> arrayAt s x = arrayAt s0 x"
    and ro: "rowObject s row"
    and val: "rowValue s row = map (boardCell (boardValue s0 board) r) [0..<n]"
    and n: "n = length (arrayAt s row)"
    and fresh: "\<And>p. Some p \<in> set (arrayAt s row) \<Longrightarrow> length (pieces s0) \<le> p"
    unfolding s_def by simp_all
  have sb: "arrayAt s board = arrayAt s0 board" using same nb by simp
  have srows: "\<And>x. Some x \<in> set (arrayAt s0 board) \<Longrightarrow> arrayAt s x = arrayAt s0 x"
    using same nr by metis
  have bs: "boardObject s board" and bv: "boardValue s board = boardValue s0 board"
    using board_later [OF l b sb srows] by simp_all
  note st = cloneCell_step [OF bs ro n, where r = r]
  have pl: "length (pieces s0) \<le> length (pieces s)" using l by (auto simp: later_def)
  show ?case
    unfolding step
  proof (intro conjI allI impI)
    show "later s0 (cloneCell board r row n s)" using l st(1) by (rule later_trans)
    show "length (arrays (cloneCell board r row n s)) = length (arrays s0)"
      using st(2) len by simp
    show "rowObject (cloneCell board r row n s) row" by (rule st(4))
    show "rowValue (cloneCell board r row n s) row =
        map (boardCell (boardValue s0 board) r) [0..<Suc n]"
      using st(5) val bv by simp
    show "length (arrayAt (cloneCell board r row n s) row) = Suc n" by (rule st(6))
  next
    fix x assume "x \<noteq> row"
    then show "arrayAt (cloneCell board r row n s) x = arrayAt s0 x"
      using st(3) same by simp
  next
    fix p assume "Some p \<in> set (arrayAt (cloneCell board r row n s) row)"
    then have "Some p \<in> set (arrayAt s row) \<or> length (pieces s) \<le> p" by (rule st(7))
    then show "length (pieces s0) \<le> p" using fresh pl by auto
  qed
qed

lemma cloneRow_step:
  assumes b: "boardObject s0 board" and l: "later s0 s"
    and same: "\<And>x. x < length (arrays s0) \<Longrightarrow> x \<noteq> clone \<Longrightarrow> arrayAt s x = arrayAt s0 x"
    and c: "clone < length (arrays s0)" and nb: "clone \<noteq> board"
    and nr: "Some clone \<notin> set (arrayAt s0 board)"
    and co: "boardObject s clone"
    and newrows: "\<And>x. Some x \<in> set (arrayAt s clone) \<Longrightarrow> length (arrays s0) \<le> x"
    and r: "r = length (arrayAt s clone)"
  shows "later s (cloneRow board clone r s) \<and>
    (\<forall>x. x < length (arrays s) \<longrightarrow> x \<noteq> clone \<longrightarrow>
       arrayAt (cloneRow board clone r s) x = arrayAt s x) \<and>
    boardObject (cloneRow board clone r s) clone \<and>
    arrayAt (cloneRow board clone r s) clone = arrayAt s clone @ [Some (length (arrays s))] \<and>
    boardValue (cloneRow board clone r s) clone =
      boardValue s clone @ [map (boardCell (boardValue s0 board) r) [0..<8] ] \<and>
    (\<forall>p. Some p \<in> set (arrayAt (cloneRow board clone r s) (length (arrays s))) \<longrightarrow>
       length (pieces s) \<le> p)"
proof -
  define row where "row = length (arrays s)"
  define s1 where "s1 = s\<lparr>arrays := arrays s @ [Nil]\<rparr>"
  define s2 where "s2 = setElement s1 clone r (Some row)"
  define s3 where "s3 = fold (cloneCell board r row) [0..<8] s2"
  have s3: "cloneRow board clone r s = s3"
    by (simp add: cloneRow_def newArray_def s3_def s2_def s1_def row_def)
  have le: "length (arrays s0) \<le> length (arrays s)" using l by (simp add: later_def)
  have cs: "clone < length (arrays s)" using c le by simp
  have a1: "\<And>x. arrayAt s1 x = arrayAt s x"
    by (auto simp: s1_def arrayAt_def nth_append)
  have len1: "length (arrays s1) = Suc (length (arrays s))" by (simp add: s1_def)
  have p1: "pieces s1 = pieces s" by (simp add: s1_def)
  have c1: "clone < length (arrays s1)" using cs len1 by simp
  have r1: "r = length (arrayAt s1 clone)" using r a1 by simp
  note se = setElement_append [OF c1 r1, where v = "Some row"]
  have a2c: "arrayAt s2 clone = arrayAt s clone @ [Some row]"
    using se(1) a1 by (simp add: s2_def)
  have a2: "\<And>x. x \<noteq> clone \<Longrightarrow> arrayAt s2 x = arrayAt s x"
    using se(2) a1 by (simp add: s2_def)
  have len2: "length (arrays s2) = Suc (length (arrays s))" using se(3) len1 by (simp add: s2_def)
  have p2: "pieces s2 = pieces s" using se(4) p1 by (simp add: s2_def)
  have l2: "later s s2" using len2 p2 by (simp add: later_def)
  have l02: "later s0 s2" using l l2 by (rule later_trans)
  have bl: "board < length (arrays s0)" using b by (simp add: boardObject_iff)
  have rows0: "\<And>x. Some x \<in> set (arrayAt s0 board) \<Longrightarrow> x < length (arrays s0) \<and> x \<noteq> clone"
    using b nr by (auto simp: boardObject_iff rowObject_iff)
  have b2a: "arrayAt s2 board = arrayAt s0 board" using a2 [of board] same [OF bl] nb by simp
  have b2r: "\<And>x. Some x \<in> set (arrayAt s0 board) \<Longrightarrow> arrayAt s2 x = arrayAt s0 x"
    using a2 same rows0 by simp
  have b2: "boardObject s2 board" and bv2: "boardValue s2 board = boardValue s0 board"
    using board_later [OF l02 b b2a b2r] by simp_all
  have rowlt: "row < length (arrays s2)" using len2 by (simp add: row_def)
  have rowne: "row \<noteq> clone" using cs by (simp add: row_def)
  have rowe: "arrayAt s2 row = []" using a2 [OF rowne] by (simp add: row_def arrayAt_def)
  have rownb: "row \<noteq> board" using bl le by (simp add: row_def)
  have rownr: "Some row \<notin> set (arrayAt s2 board)"
    using rows0 [of "length (arrays s)"] le b2a by (auto simp: row_def)
  from cloneCells_loop [OF b2 rowlt rowe rownb rownr, of r 8]
  have l23: "later s2 s3" and len3: "length (arrays s3) = length (arrays s2)"
    and a3: "\<And>x. x \<noteq> row \<Longrightarrow> arrayAt s3 x = arrayAt s2 x"
    and ro3: "rowObject s3 row"
    and rv3: "rowValue s3 row = map (boardCell (boardValue s2 board) r) [0..<8]"
    and fresh3: "\<And>p. Some p \<in> set (arrayAt s3 row) \<Longrightarrow> length (pieces s2) \<le> p"
    unfolding s3_def by simp_all
  have l3: "later s s3" using l2 l23 by (rule later_trans)
  have a3c: "arrayAt s3 clone = arrayAt s clone @ [Some row]"
    using a3 [of clone] rowne a2c by simp
  have olds: "\<And>e. e \<in> set (arrayAt s clone) \<Longrightarrow>
      \<exists>x. e = Some x \<and> rowObject s x \<and> arrayAt s3 x = arrayAt s x"
  proof -
    fix e assume "e \<in> set (arrayAt s clone)"
    then obtain x where x: "e = Some x" "rowObject s x" using co by (auto simp: boardObject_iff)
    then have "x < length (arrays s)" by (simp add: rowObject_iff)
    moreover have "x \<noteq> clone" using newrows [of x] \<open>e \<in> set (arrayAt s clone)\<close> x(1) c by auto
    ultimately have "arrayAt s3 x = arrayAt s x" using a3 [of x] a2 [of x] by (simp add: row_def)
    then show "\<exists>x. e = Some x \<and> rowObject s x \<and> arrayAt s3 x = arrayAt s x" using x by simp
  qed
  have l3s: "length (arrays s) < length (arrays s3)" using len3 len2 by simp
  show ?thesis
    unfolding s3
  proof (intro conjI allI impI)
    show "later s s3" by (rule l3)
    show "arrayAt s3 clone = arrayAt s clone @ [Some (length (arrays s))]"
      using a3c by (simp add: row_def)
    show "boardObject s3 clone"
      unfolding boardObject_iff
    proof (intro conjI ballI)
      show "clone < length (arrays s3)" using cs l3s by simp
    next
      fix e assume "e \<in> set (arrayAt s3 clone)"
      then have "e \<in> set (arrayAt s clone) \<or> e = Some row" by (auto simp: a3c)
      then show "\<exists>x. e = Some x \<and> rowObject s3 x"
      proof
        assume "e \<in> set (arrayAt s clone)"
        then obtain x where x: "e = Some x" "rowObject s x" "arrayAt s3 x = arrayAt s x"
          using olds by blast
        then show ?thesis using rowValue_later(2) [OF l3 x(2,3)] by simp
      next
        assume "e = Some row"
        then show ?thesis using ro3 by simp
      qed
    qed
    have "map (\<lambda>e. case e of None \<Rightarrow> [] | Some x \<Rightarrow> rowValue s3 x) (arrayAt s clone) =
        map (\<lambda>e. case e of None \<Rightarrow> [] | Some x \<Rightarrow> rowValue s x) (arrayAt s clone)"
    proof (rule map_cong)
      fix e assume "e \<in> set (arrayAt s clone)"
      then obtain x where x: "e = Some x" "rowObject s x" "arrayAt s3 x = arrayAt s x"
        using olds by blast
      then show "(case e of None \<Rightarrow> [] | Some x \<Rightarrow> rowValue s3 x) =
          (case e of None \<Rightarrow> [] | Some x \<Rightarrow> rowValue s x)"
        using rowValue_later(1) [OF l3 x(2,3)] by simp
    qed simp
    then show "boardValue s3 clone =
        boardValue s clone @ [map (boardCell (boardValue s0 board) r) [0..<8] ]"
      using rv3 bv2 by (simp add: boardValue_def a3c)
  next
    fix x assume "x < length (arrays s)" "x \<noteq> clone"
    then show "arrayAt s3 x = arrayAt s x" using a3 [of x] a2 [of x] by (simp add: row_def)
  next
    fix p assume "Some p \<in> set (arrayAt s3 (length (arrays s)))"
    then show "length (pieces s) \<le> p" using fresh3 [of p] p2 by (simp add: row_def)
  qed
qed

lemma cloneRows_loop:
  assumes b: "boardObject s0 board" and c: "clone < length (arrays s0)"
    and e: "arrayAt s0 clone = []" and nb: "clone \<noteq> board"
    and nr: "Some clone \<notin> set (arrayAt s0 board)"
  shows "later s0 (fold (cloneRow board clone) [0..<n] s0) \<and>
    (\<forall>x. x < length (arrays s0) \<longrightarrow> x \<noteq> clone \<longrightarrow>
       arrayAt (fold (cloneRow board clone) [0..<n] s0) x = arrayAt s0 x) \<and>
    boardObject (fold (cloneRow board clone) [0..<n] s0) clone \<and>
    length (arrayAt (fold (cloneRow board clone) [0..<n] s0) clone) = n \<and>
    boardValue (fold (cloneRow board clone) [0..<n] s0) clone =
      map (\<lambda>r. map (boardCell (boardValue s0 board) r) [0..<8]) [0..<n] \<and>
    (\<forall>row. Some row \<in> set (arrayAt (fold (cloneRow board clone) [0..<n] s0) clone) \<longrightarrow>
       length (arrays s0) \<le> row \<and>
       (\<forall>p. Some p \<in> set (arrayAt (fold (cloneRow board clone) [0..<n] s0) row) \<longrightarrow>
          length (pieces s0) \<le> p))"
proof (induction n)
  case 0
  show ?case using c e by (simp add: later_refl boardObject_def boardValue_def)
next
  case (Suc n)
  define s where "s = fold (cloneRow board clone) [0..<n] s0"
  have step: "fold (cloneRow board clone) [0..<Suc n] s0 = cloneRow board clone n s"
    by (simp add: s_def)
  from Suc.IH have l: "later s0 s"
    and same: "\<And>x. x < length (arrays s0) \<Longrightarrow> x \<noteq> clone \<Longrightarrow> arrayAt s x = arrayAt s0 x"
    and co: "boardObject s clone"
    and n: "n = length (arrayAt s clone)"
    and val: "boardValue s clone =
      map (\<lambda>r. map (boardCell (boardValue s0 board) r) [0..<8]) [0..<n]"
    and newrows: "\<And>row. Some row \<in> set (arrayAt s clone) \<Longrightarrow> length (arrays s0) \<le> row"
    and newpieces: "\<And>row p. Some row \<in> set (arrayAt s clone) \<Longrightarrow>
      Some p \<in> set (arrayAt s row) \<Longrightarrow> length (pieces s0) \<le> p"
    unfolding s_def by simp_all
  let ?s' = "cloneRow board clone n s"
  from cloneRow_step [OF b l same c nb nr co newrows n]
  have l': "later s ?s'"
    and same': "\<And>x. x < length (arrays s) \<Longrightarrow> x \<noteq> clone \<Longrightarrow> arrayAt ?s' x = arrayAt s x"
    and co': "boardObject ?s' clone"
    and arr': "arrayAt ?s' clone = arrayAt s clone @ [Some (length (arrays s))]"
    and val': "boardValue ?s' clone =
      boardValue s clone @ [map (boardCell (boardValue s0 board) n) [0..<8] ]"
    and fresh': "\<And>p. Some p \<in> set (arrayAt ?s' (length (arrays s))) \<Longrightarrow> length (pieces s) \<le> p"
    by simp_all
  have le: "length (arrays s0) \<le> length (arrays s)"
    and pl: "length (pieces s0) \<le> length (pieces s)"
    using l by (auto simp: later_def)
  show ?case
    unfolding step
  proof (intro conjI allI impI)
    show "later s0 ?s'" using l l' by (rule later_trans)
    show "boardObject ?s' clone" by (rule co')
    show "length (arrayAt ?s' clone) = Suc n" using arr' n by simp
    show "boardValue ?s' clone =
        map (\<lambda>r. map (boardCell (boardValue s0 board) r) [0..<8]) [0..<Suc n]"
      using val' val by simp
  next
    fix x assume "x < length (arrays s0)" "x \<noteq> clone"
    then show "arrayAt ?s' x = arrayAt s0 x" using same [of x] same' [of x] le by simp
  next
    fix row assume "Some row \<in> set (arrayAt ?s' clone)"
    then show "length (arrays s0) \<le> row" using arr' newrows le by auto
  next
    fix row p
    assume row: "Some row \<in> set (arrayAt ?s' clone)" and p: "Some p \<in> set (arrayAt ?s' row)"
    from row have "Some row \<in> set (arrayAt s clone) \<or> row = length (arrays s)"
      using arr' by auto
    then show "length (pieces s0) \<le> p"
    proof
      assume old: "Some row \<in> set (arrayAt s clone)"
      then have "rowObject s row" using co by (auto simp: boardObject_iff)
      then have "row < length (arrays s)" by (simp add: rowObject_iff)
      moreover have "row \<noteq> clone" using newrows [OF old] c by simp
      ultimately have "arrayAt ?s' row = arrayAt s row" by (rule same')
      then show ?thesis using newpieces [OF old] p by simp
    next
      assume "row = length (arrays s)"
      then show ?thesis using fresh' [of p] p pl by simp
    qed
  qed
qed

lemma deepCloneBoardS_spec:
  assumes b: "boardObject s board" and run: "deepCloneBoardS s board = (clone, s')"
  shows "clone = length (arrays s)"
    "later s s'"
    "\<And>x. x < length (arrays s) \<Longrightarrow> arrayAt s' x = arrayAt s x"
    "boardObject s' clone"
    "boardValue s' clone = deepCloneBoard (boardValue s board)"
    "boardValue s' board = boardValue s board"
    "\<And>row. Some row \<in> set (arrayAt s' clone) \<Longrightarrow> length (arrays s) < row"
    "\<And>row p. Some row \<in> set (arrayAt s' clone) \<Longrightarrow> Some p \<in> set (arrayAt s' row) \<Longrightarrow>
       length (pieces s) \<le> p"
proof -
  define s0 where "s0 = s\<lparr>arrays := arrays s @ [Nil]\<rparr>"
  have cl: "clone = length (arrays s)" and s': "s' = fold (cloneRow board clone) [0..<8] s0"
    using run by (auto simp: deepCloneBoardS_def newArray_def s0_def)
  have a0: "\<And>x. arrayAt s0 x = arrayAt s x" by (auto simp: s0_def arrayAt_def nth_append)
  have l0: "later s s0" by (simp add: later_def s0_def)
  have b0: "boardObject s0 board" and bv0: "boardValue s0 board = boardValue s board"
    using board_later [OF l0 b] a0 by simp_all
  have c0: "clone < length (arrays s0)" by (simp add: cl s0_def)
  have e0: "arrayAt s0 clone = []" unfolding a0 by (simp add: cl arrayAt_def)
  have bl: "board < length (arrays s)" using b by (simp add: boardObject_iff)
  have nb: "clone \<noteq> board" using bl cl by simp
  have rows: "\<And>x. Some x \<in> set (arrayAt s board) \<Longrightarrow> x < length (arrays s)"
    using b by (auto simp: boardObject_iff rowObject_iff)
  have nr: "Some clone \<notin> set (arrayAt s0 board)" using rows [of clone] cl a0 by auto
  from cloneRows_loop [OF b0 c0 e0 nb nr, of 8]
  have l: "later s0 s'"
    and same: "\<And>x. x < length (arrays s0) \<Longrightarrow> x \<noteq> clone \<Longrightarrow> arrayAt s' x = arrayAt s0 x"
    and co: "boardObject s' clone"
    and val: "boardValue s' clone =
      map (\<lambda>r. map (boardCell (boardValue s0 board) r) [0..<8]) [0..<8]"
    and newrows: "\<And>row. Some row \<in> set (arrayAt s' clone) \<Longrightarrow> length (arrays s0) \<le> row"
    and newpieces: "\<And>row p. Some row \<in> set (arrayAt s' clone) \<Longrightarrow>
      Some p \<in> set (arrayAt s' row) \<Longrightarrow> length (pieces s0) \<le> p"
    unfolding s' by simp_all
  show "clone = length (arrays s)" by (rule cl)
  show ls: "later s s'" using l0 l by (rule later_trans)
  show old: "\<And>x. x < length (arrays s) \<Longrightarrow> arrayAt s' x = arrayAt s x"
    using same a0 cl by (simp add: s0_def)
  show "boardObject s' clone" by (rule co)
  show "boardValue s' clone = deepCloneBoard (boardValue s board)"
    using val bv0 by (simp add: deepCloneBoard_cells)
  show "boardValue s' board = boardValue s board"
    using board_later(1) [OF ls b] old bl rows by simp
  show "\<And>row. Some row \<in> set (arrayAt s' clone) \<Longrightarrow> length (arrays s) < row"
    using newrows by (fastforce simp: s0_def)
  show "\<And>row p. Some row \<in> set (arrayAt s' clone) \<Longrightarrow> Some p \<in> set (arrayAt s' row) \<Longrightarrow>
       length (pieces s) \<le> p"
    using newpieces by (fastforce simp: s0_def)
qed

lemma set_rowsOf: "row \<in> set (rowsOf s b) \<longleftrightarrow> Some row \<in> set (arrayAt s b)"
  by (simp add: rowsOf_def set_refs)

lemma set_piecesOf:
  "p \<in> set (piecesOf s b) \<longleftrightarrow>
     (\<exists>row. Some row \<in> set (arrayAt s b) \<and> Some p \<in> set (arrayAt s row))"
  by (auto simp: piecesOf_def set_rowsOf set_refs)

lemma deepCloneBoardS_unshared:
  assumes b: "boardObject s board" and run: "deepCloneBoardS s board = (clone, s')"
  shows "length (arrays s) \<le> clone"
    "list_all (\<lambda>row. length (arrays s) \<le> row) (rowsOf s' clone)"
    "list_all (\<lambda>p. length (pieces s) \<le> p) (piecesOf s' clone)"
    "set (clone # rowsOf s' clone) \<inter> set (board # rowsOf s' board) = {}"
    "set (piecesOf s' clone) \<inter> set (piecesOf s' board) = {}"
proof -
  note sp = deepCloneBoardS_spec [OF b run]
  have bl: "board < length (arrays s)" using b by (simp add: boardObject_iff)
  have ob: "arrayAt s' board = arrayAt s board" using sp(3) bl by simp
  have orow: "\<And>x. Some x \<in> set (arrayAt s board) \<Longrightarrow> x < length (arrays s) \<and> rowObject s x"
    using b by (auto simp: boardObject_iff rowObject_iff)
  have oldrows: "\<And>x. x \<in> set (rowsOf s' board) \<Longrightarrow> x < length (arrays s)"
    using orow ob by (simp add: set_rowsOf)
  have oldpieces: "\<And>p. p \<in> set (piecesOf s' board) \<Longrightarrow> p < length (pieces s)"
  proof -
    fix p assume "p \<in> set (piecesOf s' board)"
    then obtain x where x: "Some x \<in> set (arrayAt s board)" "Some p \<in> set (arrayAt s' x)"
      using ob by (auto simp: set_piecesOf)
    then have "arrayAt s' x = arrayAt s x" using orow sp(3) by simp
    then show "p < length (pieces s)" using x orow [OF x(1)] by (simp add: rowObject_iff)
  qed
  have newrows: "\<And>x. x \<in> set (rowsOf s' clone) \<Longrightarrow> length (arrays s) < x"
    using sp(7) by (simp add: set_rowsOf)
  have newpieces: "\<And>p. p \<in> set (piecesOf s' clone) \<Longrightarrow> length (pieces s) \<le> p"
    using sp(8) by (auto simp: set_piecesOf)
  show "length (arrays s) \<le> clone" using sp(1) by simp
  show "list_all (\<lambda>row. length (arrays s) \<le> row) (rowsOf s' clone)"
    using newrows by (auto simp: list_all_iff dest: less_imp_le)
  show "list_all (\<lambda>p. length (pieces s) \<le> p) (piecesOf s' clone)"
    using newpieces by (simp add: list_all_iff)
  show "set (clone # rowsOf s' clone) \<inter> set (board # rowsOf s' board) = {}"
    using sp(1) bl newrows oldrows by fastforce
  show "set (piecesOf s' clone) \<inter> set (piecesOf s' board) = {}"
    using newpieces oldpieces by fastforce
qed

lemma deepCloneSnapshotS_refines:
  assumes "boardObject s (boardOf snap)" and "deepCloneSnapshotS s snap = (snap', s')"
  shows "snapshotValue s' snap' = deepCloneSnapshot (snapshotValue s snap)"
  using assms
  by (cases snap) (auto split: prod.splits simp: deepCloneBoardS_spec(5))

lemma sampleStore_wf: "boardObject sampleStore 8"
  by (simp add: sampleStore_def boardObject_def rowObject_def arrayAt_def nth_append
      list_all_iff refs_def eval_nat_numeral)

lemma sampleStore_value: "boardValue sampleStore 8 = sampleBoard"
  by (simp add: sampleStore_def boardValue_def rowValue_def arrayAt_def pieceAt_def nth_append
      sampleBoard_def eval_nat_numeral)

section \<open>Finalization\<close>

text \<open>
  C8. On an open transaction commit succeeds and returns the transaction with the
  committed flag set and nothing else changed: the captured states, the recorded new
  timeline ids and the rolled-back flag are as before. commit is given no registry, so no
  timeline can change.
\<close>

theorem commit_only_marks:
  "\<not> committed tx \<Longrightarrow> \<not> rolledBack tx \<Longrightarrow>
     commit tx = Inr (tx\<lparr>committed := True\<rparr>) \<and>
     capturedStates (tx\<lparr>committed := True\<rparr>) = capturedStates tx \<and>
     newTimelineIds (tx\<lparr>committed := True\<rparr>) = newTimelineIds tx \<and>
     rolledBack (tx\<lparr>committed := True\<rparr>) = rolledBack tx"
  by (simp add: commit_def)

theorem commit_only_marks_witness:
  "\<not> committed newTransaction \<and> \<not> rolledBack newTransaction \<and>
   commit newTransaction =
     Inr \<lparr>capturedStates = [], newTimelineIds = [], committed = True, rolledBack = False\<rparr>"
  using commit_only_marks [of newTransaction] by (simp add: newTransaction_def)

text \<open>
  C3. Whenever commit returns, a rollback of the resulting transaction throws, leaving
  the transaction and the registry as they are; and whenever rollback returns, a commit
  of the resulting transaction throws. On an open transaction commit does return, and
  rollback either returns or ends with the exception of a load; it returns when load
  never throws.
\<close>

theorem finalization_exclusive:
  "(\<forall>tx1. commit tx = Inr tx1 \<longrightarrow>
      rollback chess_load tx1 timelines' cb' =
        (Some CannotRollbackCommitted, tx1, timelines', [])) \<and>
   (\<forall>tx2 timelines2 es. rollback chess_load tx timelines cb = (None, tx2, timelines2, es) \<longrightarrow>
      commit tx2 = Inl TransactionAlreadyFinalized) \<and>
   (\<not> committed tx \<and> \<not> rolledBack tx \<longrightarrow>
      (\<exists>tx1. commit tx = Inr tx1) \<and>
      (\<exists>raised tx2 timelines2 es.
         rollback chess_load tx timelines cb = (raised, tx2, timelines2, es) \<and>
         (raised = None \<or> raised = Some ChessLoadError) \<and>
         (neverThrows chess_load \<longrightarrow> raised = None)))"
proof (intro conjI allI impI)
  fix tx1 assume "commit tx = Inr tx1"
  then show "rollback chess_load tx1 timelines' cb' =
      (Some CannotRollbackCommitted, tx1, timelines', [])"
    by (auto simp: commit_def rollback_def split: if_splits)
next
  fix tx2 timelines2 es
  assume "rollback chess_load tx timelines cb = (None, tx2, timelines2, es)"
  then show "commit tx2 = Inl TransactionAlreadyFinalized"
    by (auto simp: commit_def rollback_def split: if_splits prod.splits option.splits)
next
  assume "\<not> committed tx \<and> \<not> rolledBack tx"
  then show "\<exists>tx1. commit tx = Inr tx1" by (simp add: commit_def)
next
  assume o: "\<not> committed tx \<and> \<not> rolledBack tx"
  define S where "S = restoreCaptured chess_load (capturedStates tx)
      (fst (deleteNewTimelines cb (newTimelineIds tx) timelines))"
  have "rollback chess_load tx timelines cb =
      (fst S, (if fst S = None then tx\<lparr>rolledBack := True\<rparr> else tx), fst (snd S),
       snd (deleteNewTimelines cb (newTimelineIds tx) timelines) @ snd (snd S))"
    using o by (simp add: rollback_open S_def)
  moreover have "fst S = None \<or> fst S = Some ChessLoadError"
    unfolding S_def by (rule restoreCaptured_raised)
  moreover have "neverThrows chess_load \<longrightarrow> fst S = None"
    unfolding S_def by (simp add: restoreCaptured_neverThrows)
  ultimately show "\<exists>raised tx2 timelines2 es.
         rollback chess_load tx timelines cb = (raised, tx2, timelines2, es) \<and>
         (raised = None \<or> raised = Some ChessLoadError) \<and>
         (neverThrows chess_load \<longrightarrow> raised = None)"
    by (intro exI conjI)
qed

theorem finalization_exclusive_witness:
  "commit newTransaction = Inr (newTransaction\<lparr>committed := True\<rparr>) \<and>
   rollback sampleLoad (newTransaction\<lparr>committed := True\<rparr>) Map.empty True =
     (Some CannotRollbackCommitted, newTransaction\<lparr>committed := True\<rparr>, Map.empty, []) \<and>
   neverThrows sampleLoad \<and>
   rollback sampleLoad newTransaction Map.empty True =
     (None, newTransaction\<lparr>rolledBack := True\<rparr>, Map.empty, []) \<and>
   commit (newTransaction\<lparr>rolledBack := True\<rparr>) = Inl TransactionAlreadyFinalized"
  using finalization_exclusive [of newTransaction sampleLoad Map.empty True Map.empty True]
    sampleLoad_neverThrows
  by (simp add: commit_def rollback_def newTransaction_def)

text \<open>
  C4, as the code has it. A second rollback of a rolled-back transaction returns
  normally.
\<close>

theorem use_after_finalize_counterexample:
  "rollback sampleLoad newTransaction Map.empty False =
     (None, newTransaction\<lparr>rolledBack := True\<rparr>, Map.empty, []) \<and>
   isFinalized (newTransaction\<lparr>rolledBack := True\<rparr>) \<and>
   rollback sampleLoad (newTransaction\<lparr>rolledBack := True\<rparr>) Map.empty False =
     (None, newTransaction\<lparr>rolledBack := True\<rparr>, Map.empty, [])"
  by (simp add: rollback_def newTransaction_def isFinalized_def)

text \<open>
  C4, amended. On a finalized transaction captureTimeline, captureNewTimeline and commit
  throw the already-finalized error; rollback throws when the transaction is committed,
  and on a transaction that is rolled back and not committed it returns without changing
  the transaction or the registry and without any effect.
\<close>

theorem use_after_finalize:
  "isFinalized tx \<Longrightarrow>
     captureTimeline chess_fen tx timeline label = Inl TransactionAlreadyFinalized \<and>
     captureNewTimeline tx newId = Inl TransactionAlreadyFinalized \<and>
     commit tx = Inl TransactionAlreadyFinalized \<and>
     (committed tx \<longrightarrow>
        rollback chess_load tx timelines cb = (Some CannotRollbackCommitted, tx, timelines, [])) \<and>
     (\<not> committed tx \<longrightarrow> rollback chess_load tx timelines cb = (None, tx, timelines, []))"
  by (auto simp: isFinalized_def captureTimeline_def captureNewTimeline_def commit_def
      rollback_def)

theorem use_after_finalize_witness:
  "isFinalized (newTransaction\<lparr>committed := True\<rparr>) \<and>
   captureTimeline sampleFen (newTransaction\<lparr>committed := True\<rparr>) sourceAtCapture ''source'' =
     Inl TransactionAlreadyFinalized \<and>
   captureNewTimeline (newTransaction\<lparr>committed := True\<rparr>) 2 = Inl TransactionAlreadyFinalized \<and>
   commit (newTransaction\<lparr>committed := True\<rparr>) = Inl TransactionAlreadyFinalized \<and>
   rollback sampleLoad (newTransaction\<lparr>committed := True\<rparr>) sampleRegistry True =
     (Some CannotRollbackCommitted, newTransaction\<lparr>committed := True\<rparr>, sampleRegistry, []) \<and>
   isFinalized (sampleTx\<lparr>rolledBack := True\<rparr>) \<and>
   captureTimeline sampleFen (sampleTx\<lparr>rolledBack := True\<rparr>) sourceAtCapture ''source'' =
     Inl TransactionAlreadyFinalized \<and>
   captureNewTimeline (sampleTx\<lparr>rolledBack := True\<rparr>) 2 = Inl TransactionAlreadyFinalized \<and>
   commit (sampleTx\<lparr>rolledBack := True\<rparr>) = Inl TransactionAlreadyFinalized \<and>
   rollback sampleLoad (sampleTx\<lparr>rolledBack := True\<rparr>) sampleRegistry True =
     (None, sampleTx\<lparr>rolledBack := True\<rparr>, sampleRegistry, [])"
proof -
  have c: "isFinalized (newTransaction\<lparr>committed := True\<rparr>)"
    "committed (newTransaction\<lparr>committed := True\<rparr>)"
    by (simp_all add: isFinalized_def)
  have r: "isFinalized (sampleTx\<lparr>rolledBack := True\<rparr>)"
    "\<not> committed (sampleTx\<lparr>rolledBack := True\<rparr>)"
    by (simp_all add: isFinalized_def sampleTx_def)
  from use_after_finalize [OF c(1), of sampleFen sourceAtCapture "''source''" 2 sampleLoad
      sampleRegistry True]
    use_after_finalize [OF r(1), of sampleFen sourceAtCapture "''source''" 2 sampleLoad
      sampleRegistry True] c r
  show ?thesis by simp
qed

text \<open>
  C6. Once a rollback has returned, every further rollback of the resulting
  transaction, with whatever registry and callback, returns without an error, hands back
  the transaction and the registry exactly as given, and performs no effect.
\<close>

theorem rollback_idempotent:
  "rollback chess_load tx timelines cb = (None, tx1, timelines1, es) \<Longrightarrow>
     rollback chess_load' tx1 timelines' cb' = (None, tx1, timelines', [])"
  by (auto simp: rollback_def split: if_splits prod.splits option.splits)

theorem rollback_idempotent_witness:
  "\<exists>tx1 timelines1 es.
     rollback sampleLoad sampleTx sampleRegistry True = (None, tx1, timelines1, es) \<and>
     rolledBack tx1 \<and>
     rollback sampleLoad tx1 sampleRegistry True = (None, tx1, sampleRegistry, [])"
proof -
  have o: "\<not> committed sampleTx" "\<not> rolledBack sampleTx" by (simp_all add: sampleTx_def)
  have "fst (restoreCaptured sampleLoad (capturedStates sampleTx)
      (fst (deleteNewTimelines True (newTimelineIds sampleTx) sampleRegistry))) = None"
    using sampleLoad_neverThrows by (rule restoreCaptured_neverThrows)
  then obtain timelines1 es where
    first: "rollback sampleLoad sampleTx sampleRegistry True =
      (None, sampleTx\<lparr>rolledBack := True\<rparr>, timelines1, es)"
    using rollback_open [OF o, of sampleLoad sampleRegistry True] by simp
  from rollback_idempotent [OF first, of sampleLoad sampleRegistry True] first
  show ?thesis by simp
qed

section \<open>Capturing\<close>

text \<open>
  C5. When captureTimeline has returned for a timeline, a second call within the same
  transaction for a timeline with the same id, whatever its state and label, returns the
  transaction unchanged; the state recorded under that id stays the one built from the
  timeline of the first call.
\<close>

theorem captureTimeline_idempotent:
  assumes "captureTimeline chess_fen tx timeline label = Inr tx1"
    and "tl_id timeline' = tl_id timeline"
  shows "captureTimeline chess_fen tx1 timeline' label' = Inr tx1 \<and>
    (map_of (capturedStates tx) (tl_id timeline) = None \<longrightarrow>
       map_of (capturedStates tx1) (tl_id timeline) =
         Some (capturedState chess_fen timeline label))"
  using assms by (auto simp: captureTimeline_def split: if_splits)

theorem captureTimeline_idempotent_witness:
  "captureTimeline sampleFen newTransaction sourceAtCapture ''source'' =
     Inr (newTransaction\<lparr>capturedStates :=
            [(1, capturedState sampleFen sourceAtCapture ''source'')]\<rparr>) \<and>
   tl_id sourceMutated = tl_id sourceAtCapture \<and>
   captureTimeline sampleFen
     (newTransaction\<lparr>capturedStates :=
            [(1, capturedState sampleFen sourceAtCapture ''source'')]\<rparr>)
     sourceMutated ''target'' =
     Inr (newTransaction\<lparr>capturedStates :=
            [(1, capturedState sampleFen sourceAtCapture ''source'')]\<rparr>) \<and>
   st_fen (capturedState sampleFen sourceAtCapture ''source'') = ''4k3/8/8/8/8/8/8/4K3 w - - 0 1''"
proof -
  have first: "captureTimeline sampleFen newTransaction sourceAtCapture ''source'' =
     Inr (newTransaction\<lparr>capturedStates :=
            [(1, capturedState sampleFen sourceAtCapture ''source'')]\<rparr>)"
    by (simp add: captureTimeline_def newTransaction_def sourceAtCapture_def)
  have same: "tl_id sourceMutated = tl_id sourceAtCapture"
    by (simp add: sourceMutated_def)
  show ?thesis
    using captureTimeline_idempotent [OF first same, of "''target''"] first same
    by (simp add: capturedState_def sampleFen_def sourceAtCapture_def)
qed

section \<open>Rolling back\<close>

text \<open>
  C1, as the code has it. A timeline that was captured and also recorded as new is
  present in the registry passed to rollback, and after rollback it is gone rather than
  restored.
\<close>

theorem rollback_restores_captured_counterexample:
  "applyCalls sampleFen newTransaction
     [CaptureTimeline sourceAtCapture ''source'', CaptureNewTimeline 1] =
     Inr \<lparr>capturedStates = [(1, capturedState sampleFen sourceAtCapture ''source'')],
          newTimelineIds = [1], committed = False, rolledBack = False\<rparr> \<and>
   [1 \<mapsto> sourceMutated] 1 = Some sourceMutated \<and>
   rollback validatingLoad
     \<lparr>capturedStates = [(1, capturedState sampleFen sourceAtCapture ''source'')],
      newTimelineIds = [1], committed = False, rolledBack = False\<rparr>
     [1 \<mapsto> sourceMutated] False =
     (None,
      \<lparr>capturedStates = [(1, capturedState sampleFen sourceAtCapture ''source'')],
       newTimelineIds = [1], committed = False, rolledBack = True\<rparr>,
      Map.empty, [DeleteTimeline 1])"
proof -
  have a1: "applyCalls sampleFen newTransaction
     [CaptureTimeline sourceAtCapture ''source'', CaptureNewTimeline 1] =
     Inr \<lparr>capturedStates = [(1, capturedState sampleFen sourceAtCapture ''source'')],
          newTimelineIds = [1], committed = False, rolledBack = False\<rparr>"
    by (simp add: newTransaction_def captureTimeline_def captureNewTimeline_def
        sourceAtCapture_def)
  have a2: "rollback validatingLoad
     \<lparr>capturedStates = [(1, capturedState sampleFen sourceAtCapture ''source'')],
      newTimelineIds = [1], committed = False, rolledBack = False\<rparr>
     [1 \<mapsto> sourceMutated] False =
     (None,
      \<lparr>capturedStates = [(1, capturedState sampleFen sourceAtCapture ''source'')],
       newTimelineIds = [1], committed = False, rolledBack = True\<rparr>,
      Map.empty, [DeleteTimeline 1])"
    by (simp add: rollback_def)
  from a1 a2 show ?thesis by simp
qed

text \<open>
  C1, amended. Take any run of capture calls on a fresh transaction, an id whose first
  captureTimeline call in the run was for the timeline \<open>t0\<close> and under which the registry
  passed to rollback holds the timeline \<open>t\<close>, and let every call of load that rollback
  has to make return. Then rollback returns without an error and marks the transaction
  rolled back. When the id was also passed to captureNewTimeline, the registry has no
  entry under it afterwards. Otherwise load was called on the chess instance of \<open>t\<close>
  with the positional string that \<open>t0\<close> had when captured, and afterwards the registry
  holds under the id the timeline \<open>t\<close> with the chess instance that this call left, with
  the move history of \<open>t0\<close> and with the copy taken of the snapshot list of \<open>t0\<close>, every
  other field being as in \<open>t\<close>; the copy is the snapshot list of \<open>t0\<close> itself when these
  snapshots hold 8x8 boards.
\<close>

theorem rollback_restores_captured:
  assumes calls: "applyCalls chess_fen newTransaction calls = Inr tx"
    and first: "firstCaptured calls i = Some (t0, label)"
    and present: "timelines i = Some t"
    and loads: "loadsReturn chess_load tx timelines"
  shows "\<exists>tx' timelines' es.
      rollback chess_load tx timelines cb = (None, tx', timelines', es) \<and>
      rolledBack tx' \<and>
      (i \<in> set (recordedNew calls) \<longrightarrow> timelines' i = None) \<and>
      (i \<notin> set (recordedNew calls) \<longrightarrow>
         (\<exists>loaded chess'.
            chess_load (tl_chess t) (chess_fen (tl_chess t0)) = LoadReturned loaded chess' \<and>
            LoadFen i (chess_fen (tl_chess t0)) loaded \<in> set es \<and>
            timelines' i =
              Some (t\<lparr>tl_chess := chess', tl_moveHistory := tl_moveHistory t0,
                      tl_snapshots := deepCloneSnapshots (tl_snapshots t0)\<rparr>) \<and>
            (list_all snapshot8x8 (tl_snapshots t0) \<longrightarrow>
               timelines' i =
                 Some (t\<lparr>tl_chess := chess', tl_moveHistory := tl_moveHistory t0,
                         tl_snapshots := tl_snapshots t0\<rparr>))))"
proof -
  note inv = applyCalls_new_inv [OF calls]
  define D where "D = deleteNewTimelines cb (newTimelineIds tx) timelines"
  define S where "S = restoreCaptured chess_load (capturedStates tx) (fst D)"
  define es where "es = snd D @ snd (snd S)"
  have ok: "loadsOk chess_load (capturedStates tx) (fst D)"
    using loads unfolding D_def by (simp add: loadsReturn_step2 [where cb = cb])
  have none: "fst S = None"
    unfolding S_def using inv(3) ok by (rule restoreCaptured_returns)
  have run: "rollback chess_load tx timelines cb =
      (None, tx\<lparr>rolledBack := True\<rparr>, fst (snd S), es)"
    using rollback_open [OF inv(1,2), of chess_load timelines cb] none
    by (simp add: S_def D_def es_def)
  have flag: "rolledBack (tx\<lparr>rolledBack := True\<rparr>)" by simp
  have new: "i \<in> set (recordedNew calls) \<longrightarrow> fst (snd S) i = None"
  proof
    assume "i \<in> set (recordedNew calls)"
    then have "fst D i = None" using inv(4) by (simp add: D_def deleteNewTimelines_registry)
    then show "fst (snd S) i = None" unfolding S_def by (rule restoreCaptured_absent)
  qed
  have old: "i \<notin> set (recordedNew calls) \<longrightarrow>
         (\<exists>loaded chess'.
            chess_load (tl_chess t) (chess_fen (tl_chess t0)) = LoadReturned loaded chess' \<and>
            LoadFen i (chess_fen (tl_chess t0)) loaded \<in> set es \<and>
            fst (snd S) i =
              Some (t\<lparr>tl_chess := chess', tl_moveHistory := tl_moveHistory t0,
                      tl_snapshots := deepCloneSnapshots (tl_snapshots t0)\<rparr>) \<and>
            (list_all snapshot8x8 (tl_snapshots t0) \<longrightarrow>
               fst (snd S) i =
                 Some (t\<lparr>tl_chess := chess', tl_moveHistory := tl_moveHistory t0,
                         tl_snapshots := tl_snapshots t0\<rparr>)))"
  proof
    assume n: "i \<notin> set (recordedNew calls)"
    let ?s = "capturedState chess_fen t0 label"
    have mem: "(i, ?s) \<in> set (capturedStates tx)"
      using applyCalls_new_member [OF calls] first by blast
    have R1: "fst D i = Some t"
      using n present inv(4) by (simp add: D_def deleteNewTimelines_registry)
    have "\<exists>ok c'. chess_load (tl_chess t) (st_fen ?s) = LoadReturned ok c' \<and>
       fst (snd (restoreCaptured chess_load (capturedStates tx) (fst D))) i =
         Some (t\<lparr>tl_chess := c', tl_moveHistory := st_moveHistory ?s,
                  tl_snapshots := deepCloneSnapshots (st_snapshots ?s)\<rparr>) \<and>
       LoadFen i (st_fen ?s) ok
         \<in> set (snd (snd (restoreCaptured chess_load (capturedStates tx) (fst D))))"
      using inv(3) ok mem R1 by (rule restoreCaptured_at)
    then obtain loaded chess' where
      l: "chess_load (tl_chess t) (chess_fen (tl_chess t0)) = LoadReturned loaded chess'"
      and r: "fst (snd S) i =
         Some (t\<lparr>tl_chess := chess', tl_moveHistory := tl_moveHistory t0,
                 tl_snapshots := deepCloneSnapshots (tl_snapshots t0)\<rparr>)"
      and e: "LoadFen i (chess_fen (tl_chess t0)) loaded \<in> set (snd (snd S))"
      by (auto simp: S_def capturedState_def deepCloneMoveHistory_id deepCloneSnapshots_idem)
    have "LoadFen i (chess_fen (tl_chess t0)) loaded \<in> set es" using e by (simp add: es_def)
    moreover have "list_all snapshot8x8 (tl_snapshots t0) \<longrightarrow>
               fst (snd S) i =
                 Some (t\<lparr>tl_chess := chess', tl_moveHistory := tl_moveHistory t0,
                         tl_snapshots := tl_snapshots t0\<rparr>)"
      using r by (simp add: deepCloneSnapshots_id)
    ultimately show "\<exists>loaded chess'.
            chess_load (tl_chess t) (chess_fen (tl_chess t0)) = LoadReturned loaded chess' \<and>
            LoadFen i (chess_fen (tl_chess t0)) loaded \<in> set es \<and>
            fst (snd S) i =
              Some (t\<lparr>tl_chess := chess', tl_moveHistory := tl_moveHistory t0,
                      tl_snapshots := deepCloneSnapshots (tl_snapshots t0)\<rparr>) \<and>
            (list_all snapshot8x8 (tl_snapshots t0) \<longrightarrow>
               fst (snd S) i =
                 Some (t\<lparr>tl_chess := chess', tl_moveHistory := tl_moveHistory t0,
                         tl_snapshots := tl_snapshots t0\<rparr>))"
      using l r by (intro exI conjI)
  qed
  from run flag new old show ?thesis by (intro exI conjI)
qed

theorem rollback_restores_captured_witness:
  "applyCalls sampleFen newTransaction sampleCalls = Inr sampleTx \<and>
   firstCaptured sampleCalls 1 = Some (sourceAtCapture, ''source'') \<and>
   sampleRegistry 1 = Some sourceMutated \<and>
   loadsReturn validatingLoad sampleTx sampleRegistry \<and>
   1 \<notin> set (recordedNew sampleCalls) \<and>
   list_all snapshot8x8 (tl_snapshots sourceAtCapture) \<and>
   (\<exists>tx' timelines' es.
      rollback validatingLoad sampleTx sampleRegistry True = (None, tx', timelines', es) \<and>
      rolledBack tx' \<and>
      LoadFen 1 ''4k3/8/8/8/8/8/8/4K3 w - - 0 1'' False \<in> set es \<and>
      timelines' 1 = Some sourceAtCapture)"
proof -
  have first: "firstCaptured sampleCalls 1 = Some (sourceAtCapture, ''source'')"
    by (simp add: sampleCalls_def sourceAtCapture_def)
  have notnew: "1 \<notin> set (recordedNew sampleCalls)"
    by (simp add: sampleCalls_def)
  have present: "sampleRegistry 1 = Some sourceMutated"
    by (simp add: sampleRegistry_def)
  have wf: "list_all snapshot8x8 (tl_snapshots sourceAtCapture)"
    by (simp add: sourceAtCapture_def sampleBoard_8x8)
  have loads: "loadsReturn validatingLoad sampleTx sampleRegistry"
    by (simp add: loadsReturn_def loadsOk_def sampleTx_def sampleRegistry_def
        capturedState_def sampleFen_def validatingLoad_def fenAccepted_def
        sourceAtCapture_def sourceMutated_def targetAtCapture_def targetMutated_def)
  have ld: "validatingLoad (tl_chess sourceMutated) (sampleFen (tl_chess sourceAtCapture)) =
      LoadReturned False (tl_chess sourceAtCapture)"
    by (simp add: validatingLoad_def fenAccepted_def sampleFen_def sourceAtCapture_def)
  have fen: "sampleFen (tl_chess sourceAtCapture) = ''4k3/8/8/8/8/8/8/4K3 w - - 0 1''"
    by (simp add: sampleFen_def sourceAtCapture_def)
  have undo: "sourceMutated\<lparr>tl_chess := tl_chess sourceAtCapture,
      tl_moveHistory := tl_moveHistory sourceAtCapture,
      tl_snapshots := tl_snapshots sourceAtCapture\<rparr> = sourceAtCapture"
    by (simp add: sourceMutated_def)
  from rollback_restores_captured [where timelines = sampleRegistry and i = 1
      and chess_load = validatingLoad and cb = True, OF sampleCalls_run first present loads]
  obtain tx' timelines' es loaded chess' where
    r: "rollback validatingLoad sampleTx sampleRegistry True = (None, tx', timelines', es)"
    and f: "rolledBack tx'"
    and l: "validatingLoad (tl_chess sourceMutated) (sampleFen (tl_chess sourceAtCapture)) =
      LoadReturned loaded chess'"
    and e: "LoadFen 1 (sampleFen (tl_chess sourceAtCapture)) loaded \<in> set es"
    and t: "timelines' 1 =
      Some (sourceMutated\<lparr>tl_chess := chess', tl_moveHistory := tl_moveHistory sourceAtCapture,
              tl_snapshots := tl_snapshots sourceAtCapture\<rparr>)"
    using notnew wf by blast
  from l ld have "loaded = False" "chess' = tl_chess sourceAtCapture" by simp_all
  with r f e t undo fen have "\<exists>tx' timelines' es.
      rollback validatingLoad sampleTx sampleRegistry True = (None, tx', timelines', es) \<and>
      rolledBack tx' \<and>
      LoadFen 1 ''4k3/8/8/8/8/8/8/4K3 w - - 0 1'' False \<in> set es \<and>
      timelines' 1 = Some sourceAtCapture"
    by auto
  with sampleCalls_run first present loads notnew wf show ?thesis by (intro conjI)
qed

text \<open>
  C2. When rollback is called with a callback on an open transaction, its effects are a
  sequence of deletion effects followed by a sequence of restoration effects, whether it
  returns or a load throws; it returns when load never throws. For every id recorded by
  captureNewTimeline: afterwards the registry has no entry under it; and when the
  registry passed in had one, the deletion effects contain the callback call for that id
  immediately followed by its removal from the registry, and contain neither of the two
  anywhere else.
\<close>

theorem rollback_deletes_new_timelines:
  assumes "\<not> committed tx" and "\<not> rolledBack tx"
  shows "\<exists>raised tx' timelines' dels rests.
      rollback chess_load tx timelines True = (raised, tx', timelines', dels @ rests) \<and>
      (neverThrows chess_load \<longrightarrow> raised = None) \<and>
      list_all isDeletion dels \<and> list_all isRestoration rests \<and>
      (\<forall>i \<in> set (newTimelineIds tx).
         timelines' i = None \<and>
         (timelines i \<noteq> None \<longrightarrow>
            (\<exists>pre post. dels = pre @ [OnDeleteTimeline i, DeleteTimeline i] @ post \<and>
               OnDeleteTimeline i \<notin> set pre \<and> DeleteTimeline i \<notin> set pre \<and>
               OnDeleteTimeline i \<notin> set post \<and> DeleteTimeline i \<notin> set post)))"
proof -
  define D where "D = deleteNewTimelines True (newTimelineIds tx) timelines"
  define S where "S = restoreCaptured chess_load (capturedStates tx) (fst D)"
  define tx' where "tx' = (if fst S = None then tx\<lparr>rolledBack := True\<rparr> else tx)"
  have run: "rollback chess_load tx timelines True =
      (fst S, tx', fst (snd S), snd D @ snd (snd S))"
    using rollback_open [OF assms, of chess_load timelines True]
    by (simp add: S_def D_def tx'_def)
  have ret: "neverThrows chess_load \<longrightarrow> fst S = None"
    unfolding S_def by (simp add: restoreCaptured_neverThrows)
  have dels: "list_all isDeletion (snd D)"
    unfolding D_def by (rule deleteNewTimelines_effects)
  have rests: "list_all isRestoration (snd (snd S))"
    unfolding S_def by (rule restoreCaptured_effects)
  have each: "\<forall>i \<in> set (newTimelineIds tx).
         fst (snd S) i = None \<and>
         (timelines i \<noteq> None \<longrightarrow>
            (\<exists>pre post. snd D = pre @ [OnDeleteTimeline i, DeleteTimeline i] @ post \<and>
               OnDeleteTimeline i \<notin> set pre \<and> DeleteTimeline i \<notin> set pre \<and>
               OnDeleteTimeline i \<notin> set post \<and> DeleteTimeline i \<notin> set post))"
  proof (intro ballI conjI impI)
    fix i assume mem: "i \<in> set (newTimelineIds tx)"
    have "fst D i = None" using mem by (simp add: D_def deleteNewTimelines_registry)
    then show "fst (snd S) i = None" unfolding S_def by (rule restoreCaptured_absent)
  next
    fix i assume mem: "i \<in> set (newTimelineIds tx)" and pres: "timelines i \<noteq> None"
    from mem pres show "\<exists>pre post. snd D = pre @ [OnDeleteTimeline i, DeleteTimeline i] @ post \<and>
               OnDeleteTimeline i \<notin> set pre \<and> DeleteTimeline i \<notin> set pre \<and>
               OnDeleteTimeline i \<notin> set post \<and> DeleteTimeline i \<notin> set post"
      unfolding D_def by (rule deleteNewTimelines_once)
  qed
  from run ret dels rests each show ?thesis by (intro exI conjI)
qed

theorem rollback_deletes_new_timelines_witness:
  "\<not> committed sampleTx \<and> \<not> rolledBack sampleTx \<and> neverThrows sampleLoad \<and>
   newTimelineIds sampleTx = [2] \<and> sampleRegistry 2 = Some branchTimeline \<and>
   (\<exists>tx' timelines'.
      rollback sampleLoad sampleTx sampleRegistry True =
        (None, tx', timelines',
             [OnDeleteTimeline 2, DeleteTimeline 2] @
             [LoadFen 1 ''4k3/8/8/8/8/8/8/4K3 w - - 0 1'' True, SetMoveHistory 1, SetSnapshots 1,
              LoadFen 3 ''4k3/8/8/8/8/8/8/3QK3 w - - 0 1'' True, SetMoveHistory 3, SetSnapshots 3]) \<and>
      timelines' 2 = None)"
proof -
  have o: "\<not> committed sampleTx" "\<not> rolledBack sampleTx" by (simp_all add: sampleTx_def)
  have es: "snd (deleteNewTimelines True (newTimelineIds sampleTx) sampleRegistry) @
      snd (snd (restoreCaptured sampleLoad (capturedStates sampleTx)
             (fst (deleteNewTimelines True (newTimelineIds sampleTx) sampleRegistry)))) =
      [OnDeleteTimeline 2, DeleteTimeline 2] @
      [LoadFen 1 ''4k3/8/8/8/8/8/8/4K3 w - - 0 1'' True, SetMoveHistory 1, SetSnapshots 1,
       LoadFen 3 ''4k3/8/8/8/8/8/8/3QK3 w - - 0 1'' True, SetMoveHistory 3, SetSnapshots 3]"
    by (simp add: sampleTx_def sampleRegistry_def capturedState_def sampleFen_def
        sampleLoad_def restoreTimeline_def sourceAtCapture_def sourceMutated_def
        targetAtCapture_def targetMutated_def)
  from rollback_deletes_new_timelines [OF o, of sampleLoad sampleRegistry]
  obtain raised tx' timelines' dels rests where
    r: "rollback sampleLoad sampleTx sampleRegistry True = (raised, tx', timelines', dels @ rests)"
    and n: "neverThrows sampleLoad \<longrightarrow> raised = None"
    and g: "\<forall>i \<in> set (newTimelineIds sampleTx). timelines' i = None"
    by blast
  have "timelines' 2 = None" using g by (simp add: sampleTx_def)
  moreover have "raised = None" using n sampleLoad_neverThrows by simp
  moreover have "dels @ rests = [OnDeleteTimeline 2, DeleteTimeline 2] @
      [LoadFen 1 ''4k3/8/8/8/8/8/8/4K3 w - - 0 1'' True, SetMoveHistory 1, SetSnapshots 1,
       LoadFen 3 ''4k3/8/8/8/8/8/8/3QK3 w - - 0 1'' True, SetMoveHistory 3, SetSnapshots 3]"
    using r es by (simp add: rollback_open [OF o])
  ultimately show ?thesis using r o sampleLoad_neverThrows
    by (simp add: sampleTx_def sampleRegistry_def)
qed

text \<open>
  C10. When an id was recorded by captureNewTimeline more than once and rollback is
  called on the open transaction: among its effects the callback is called for that id
  at most once and the id is removed from the registry at most once; when the registry
  passed in holds a timeline under the id, it is removed exactly once (and the callback,
  when one was passed, is called exactly once); afterwards the registry has no entry
  under it. This holds whether rollback returns or a load throws; it returns when load
  never throws.
\<close>

theorem duplicate_new_timeline_deleted_once:
  assumes "\<not> committed tx" and "\<not> rolledBack tx"
    and "1 < count_list (newTimelineIds tx) i"
  shows "\<exists>raised tx' timelines' es.
      rollback chess_load tx timelines cb = (raised, tx', timelines', es) \<and>
      (neverThrows chess_load \<longrightarrow> raised = None) \<and>
      count_list es (OnDeleteTimeline i) \<le> 1 \<and>
      count_list es (DeleteTimeline i) \<le> 1 \<and>
      (timelines i \<noteq> None \<longrightarrow>
         count_list es (DeleteTimeline i) = 1 \<and>
         (cb \<longrightarrow> count_list es (OnDeleteTimeline i) = 1)) \<and>
      timelines' i = None"
proof -
  define D where "D = deleteNewTimelines cb (newTimelineIds tx) timelines"
  define S where "S = restoreCaptured chess_load (capturedStates tx) (fst D)"
  define es where "es = snd D @ snd (snd S)"
  define tx' where "tx' = (if fst S = None then tx\<lparr>rolledBack := True\<rparr> else tx)"
  have mem: "i \<in> set (newTimelineIds tx)"
    using assms(3) by (metis count_list_0_iff not_less_zero)
  have "fst D i = None" using mem by (simp add: D_def deleteNewTimelines_registry)
  then have gone: "fst (snd S) i = None" unfolding S_def by (rule restoreCaptured_absent)
  have "list_all isRestoration (snd (snd S))" unfolding S_def by (rule restoreCaptured_effects)
  then have r: "count_list (snd (snd S)) (OnDeleteTimeline i) = 0"
    "count_list (snd (snd S)) (DeleteTimeline i) = 0"
    using count_list_restoration by blast+
  have d: "count_list (snd D) (OnDeleteTimeline i) = (if cb \<and> timelines i \<noteq> None then 1 else 0)"
    "count_list (snd D) (DeleteTimeline i) = (if timelines i \<noteq> None then 1 else 0)"
    using deleteNewTimelines_count [of cb "newTimelineIds tx" timelines i] mem
    by (simp_all add: D_def)
  have c1: "count_list es (OnDeleteTimeline i) = (if cb \<and> timelines i \<noteq> None then 1 else 0)"
    and c2: "count_list es (DeleteTimeline i) = (if timelines i \<noteq> None then 1 else 0)"
    using r d by (simp_all add: es_def)
  have run: "rollback chess_load tx timelines cb = (fst S, tx', fst (snd S), es)"
    using rollback_open [OF assms(1,2), of chess_load timelines cb]
    by (simp add: es_def S_def D_def tx'_def)
  have ret: "neverThrows chess_load \<longrightarrow> fst S = None"
    unfolding S_def by (simp add: restoreCaptured_neverThrows)
  have le1: "count_list es (OnDeleteTimeline i) \<le> 1" using c1 by simp
  have le2: "count_list es (DeleteTimeline i) \<le> 1" using c2 by simp
  have ex: "timelines i \<noteq> None \<longrightarrow>
         count_list es (DeleteTimeline i) = 1 \<and>
         (cb \<longrightarrow> count_list es (OnDeleteTimeline i) = 1)" using c1 c2 by simp
  from run ret le1 le2 ex gone show ?thesis by (intro exI conjI)
qed

theorem duplicate_new_timeline_deleted_once_witness:
  "captureNewTimeline newTransaction 2 = Inr (newTransaction\<lparr>newTimelineIds := [2]\<rparr>) \<and>
   captureNewTimeline (newTransaction\<lparr>newTimelineIds := [2]\<rparr>) 2 =
     Inr (newTransaction\<lparr>newTimelineIds := [2, 2]\<rparr>) \<and>
   1 < count_list (newTimelineIds (newTransaction\<lparr>newTimelineIds := [2, 2]\<rparr>)) 2 \<and>
   sampleRegistry 2 = Some branchTimeline \<and> neverThrows sampleLoad \<and>
   (\<exists>tx' timelines'.
      rollback sampleLoad (newTransaction\<lparr>newTimelineIds := [2, 2]\<rparr>) sampleRegistry True =
        (None, tx', timelines', [OnDeleteTimeline 2, DeleteTimeline 2]) \<and>
      timelines' 2 = None)"
proof -
  let ?tx = "newTransaction\<lparr>newTimelineIds := [2, 2]\<rparr>"
  have o: "\<not> committed ?tx" "\<not> rolledBack ?tx" by (simp_all add: newTransaction_def)
  have c: "1 < count_list (newTimelineIds ?tx) 2" by simp
  have es: "snd (deleteNewTimelines True (newTimelineIds ?tx) sampleRegistry) @
      snd (snd (restoreCaptured sampleLoad (capturedStates ?tx)
             (fst (deleteNewTimelines True (newTimelineIds ?tx) sampleRegistry)))) =
      [OnDeleteTimeline 2, DeleteTimeline 2]"
    by (simp add: newTransaction_def sampleRegistry_def)
  from duplicate_new_timeline_deleted_once [OF o c, of sampleLoad sampleRegistry True]
  obtain raised tx' timelines' es where
    r: "rollback sampleLoad ?tx sampleRegistry True = (raised, tx', timelines', es)"
    and n: "neverThrows sampleLoad \<longrightarrow> raised = None"
    and g: "timelines' 2 = None"
    by blast
  have "es = [OnDeleteTimeline 2, DeleteTimeline 2]"
    using r es by (simp add: rollback_open [OF o])
  moreover have "raised = None" using n sampleLoad_neverThrows by simp
  ultimately show ?thesis using r g c sampleLoad_neverThrows
    by (simp add: captureNewTimeline_def newTransaction_def sampleRegistry_def)
qed

text \<open>
  C7, at an input where the code departs from it. A transaction captures timeline 4,
  whose position has no black king, and timeline 3. Both are then changed and rollback
  is called. The load of the captured string of timeline 4 throws, as the load of
  chess.js does on a position it does not accept. rollback ends with that exception:
  its only effect is the call that threw, the registry still holds the changed timelines
  4 and 3, whose move histories and snapshot lists differ from the captured ones, and the
  transaction is still not marked rolled back.
\<close>

theorem rollback_raises_when_load_throws:
  "applyCalls sampleFen newTransaction
     [CaptureTimeline kinglessAtCapture ''source'', CaptureTimeline targetAtCapture ''target''] =
     Inr kinglessTx \<and>
   kinglessRegistry 4 = Some kinglessMutated \<and>
   kinglessRegistry 3 = Some targetMutated \<and>
   validatingLoad (tl_chess kinglessMutated) (sampleFen (tl_chess kinglessAtCapture)) =
     LoadThrew (tl_chess kinglessMutated) \<and>
   rollback validatingLoad kinglessTx kinglessRegistry True =
     (Some ChessLoadError, kinglessTx, kinglessRegistry,
      [LoadFenThrew 4 ''8/8/8/8/8/8/8/4K3 w - - 0 1'']) \<and>
   \<not> rolledBack kinglessTx \<and>
   tl_moveHistory kinglessMutated \<noteq> tl_moveHistory kinglessAtCapture \<and>
   tl_snapshots kinglessMutated \<noteq> tl_snapshots kinglessAtCapture \<and>
   tl_moveHistory targetMutated \<noteq> tl_moveHistory targetAtCapture \<and>
   tl_snapshots targetMutated \<noteq> tl_snapshots targetAtCapture"
proof -
  have run: "applyCalls sampleFen newTransaction
     [CaptureTimeline kinglessAtCapture ''source'', CaptureTimeline targetAtCapture ''target''] =
     Inr kinglessTx"
    by (simp add: kinglessTx_def newTransaction_def captureTimeline_def
        kinglessAtCapture_def targetAtCapture_def)
  have p4: "kinglessRegistry 4 = Some kinglessMutated"
    and p3: "kinglessRegistry 3 = Some targetMutated"
    by (simp_all add: kinglessRegistry_def)
  have ld: "validatingLoad (tl_chess kinglessMutated) (sampleFen (tl_chess kinglessAtCapture)) =
     LoadThrew (tl_chess kinglessMutated)"
    by (simp add: validatingLoad_def fenAccepted_def sampleFen_def kinglessAtCapture_def)
  have fen: "sampleFen (tl_chess kinglessAtCapture) = ''8/8/8/8/8/8/8/4K3 w - - 0 1''"
    by (simp add: sampleFen_def kinglessAtCapture_def)
  have same: "kinglessRegistry(4 \<mapsto> kinglessMutated\<lparr>tl_chess := tl_chess kinglessMutated\<rparr>) =
      kinglessRegistry"
    using p4 by (simp add: map_upd_triv)
  have stop: "restoreCaptured validatingLoad (capturedStates kinglessTx) kinglessRegistry =
      (Some ChessLoadError, kinglessRegistry, [LoadFenThrew 4 ''8/8/8/8/8/8/8/4K3 w - - 0 1''])"
    using restoreCaptured_stop [where R = kinglessRegistry and i = 4 and t = kinglessMutated
        and ld = validatingLoad
        and st = "capturedState sampleFen kinglessAtCapture ''source''"
        and c' = "tl_chess kinglessMutated"
        and rest = "[(3, capturedState sampleFen targetAtCapture ''target'')]"] p4 ld fen same
    by (simp add: kinglessTx_def capturedState_def del: restoreCaptured.simps)
  have r: "rollback validatingLoad kinglessTx kinglessRegistry True =
     (Some ChessLoadError, kinglessTx, kinglessRegistry,
      [LoadFenThrew 4 ''8/8/8/8/8/8/8/4K3 w - - 0 1''])"
    using stop by (simp add: rollback_def kinglessTx_def)
  have o: "\<not> rolledBack kinglessTx" by (simp add: kinglessTx_def)
  have d: "tl_moveHistory kinglessMutated \<noteq> tl_moveHistory kinglessAtCapture"
    "tl_snapshots kinglessMutated \<noteq> tl_snapshots kinglessAtCapture"
    "tl_moveHistory targetMutated \<noteq> tl_moveHistory targetAtCapture"
    "tl_snapshots targetMutated \<noteq> tl_snapshots targetAtCapture"
    by (simp_all add: kinglessMutated_def kinglessAtCapture_def targetMutated_def
        targetAtCapture_def)
  from run p4 p3 ld r o d show ?thesis by (intro conjI)
qed

section \<open>Cloning snapshots\<close>

text \<open>
  C9. For a snapshot of either format whose board is an 8x8 board in the store (the
  board of the data model), the clone of the snapshot has the same format; the value it
  stands for afterwards equals the value the input stood for, and the input still stands
  for that value; the clone's board array, each of its row arrays and each of its piece
  objects has an address that was not allocated before the call; so the clone and the
  input have no array and no piece object in common.
\<close>

theorem deepCloneSnapshot_equal_unshared:
  assumes obj: "boardObject s (boardOf snap)"
    and grid: "snapshot8x8 (snapshotValue s snap)"
  shows "\<exists>snap' s'. deepCloneSnapshotS s snap = (snap', s') \<and>
      isBare snap' = isBare snap \<and>
      snapshotValue s' snap' = snapshotValue s snap \<and>
      snapshotValue s' snap = snapshotValue s snap \<and>
      length (arrays s) \<le> boardOf snap' \<and>
      list_all (\<lambda>row. length (arrays s) \<le> row) (rowsOf s' (boardOf snap')) \<and>
      list_all (\<lambda>p. length (pieces s) \<le> p) (piecesOf s' (boardOf snap')) \<and>
      set (boardOf snap' # rowsOf s' (boardOf snap')) \<inter>
        set (boardOf snap # rowsOf s' (boardOf snap)) = {} \<and>
      set (piecesOf s' (boardOf snap')) \<inter> set (piecesOf s' (boardOf snap)) = {}"
proof -
  obtain clone s' where run: "deepCloneBoardS s (boardOf snap) = (clone, s')"
    by (cases "deepCloneBoardS s (boardOf snap)")
  note sp = deepCloneBoardS_spec [OF obj run]
  note un = deepCloneBoardS_unshared [OF obj run]
  have g: "is8x8 (boardValue s (boardOf snap))" using grid by (cases snap) simp_all
  have eq: "boardValue s' clone = boardValue s (boardOf snap)"
    using sp(5) deepCloneBoard_id [OF g] by simp
  show ?thesis
  proof (cases snap)
    case (BareBoardRef b)
    then have "deepCloneSnapshotS s snap = (BareBoardRef clone, s')" using run by simp
    then show ?thesis using BareBoardRef eq sp(6) un by simp
  next
    case (FenBoardRef f b)
    then have "deepCloneSnapshotS s snap = (FenBoardRef f clone, s')" using run by simp
    then show ?thesis using FenBoardRef eq sp(6) un by simp
  qed
qed

theorem deepCloneSnapshot_equal_unshared_witness:
  "boardObject sampleStore (boardOf (FenBoardRef ''8/8/8/8/8/8/8/4K3 w - - 0 1'' 8)) \<and>
   snapshot8x8 (snapshotValue sampleStore (FenBoardRef ''8/8/8/8/8/8/8/4K3 w - - 0 1'' 8)) \<and>
   (\<exists>snap' s'.
      deepCloneSnapshotS sampleStore (FenBoardRef ''8/8/8/8/8/8/8/4K3 w - - 0 1'' 8) = (snap', s') \<and>
      \<not> isBare snap' \<and>
      snapshotValue s' snap' = FenBoard ''8/8/8/8/8/8/8/4K3 w - - 0 1'' sampleBoard \<and>
      snapshotValue s' (FenBoardRef ''8/8/8/8/8/8/8/4K3 w - - 0 1'' 8) =
        FenBoard ''8/8/8/8/8/8/8/4K3 w - - 0 1'' sampleBoard \<and>
      9 \<le> boardOf snap' \<and>
      set (piecesOf s' (boardOf snap')) \<inter> set (piecesOf s' 8) = {})"
proof -
  let ?snap = "FenBoardRef ''8/8/8/8/8/8/8/4K3 w - - 0 1'' 8"
  have obj: "boardObject sampleStore (boardOf ?snap)" using sampleStore_wf by simp
  have grid: "snapshot8x8 (snapshotValue sampleStore ?snap)"
    using sampleBoard_8x8 by (simp add: sampleStore_value)
  have len: "length (arrays sampleStore) = 9" by (simp add: sampleStore_def)
  from deepCloneSnapshot_equal_unshared [OF obj grid] obj grid
  show ?thesis by (simp add: sampleStore_value len) blast
qed

end
